theory Spec2Isabelle
  imports
    Complex_Main
    "HOL-Library.AList"
    "HOL-Library.Char_ord"
    "HOL-Library.List_Lexorder"
    "HOL-Library.Word"
begin

section \<open>Consistent hashing with node rebalancing\<close>

text \<open>
  A shallow embedding of \<^verbatim>\<open>hash_function.py\<close>, \<^verbatim>\<open>hash_ring.py\<close> and
  \<^verbatim>\<open>rebalancer.py\<close>. Python's \<^verbatim>\<open>int\<close> is \<^typ>\<open>int\<close>, a \<^verbatim>\<open>str\<close> is a
  \<^typ>\<open>string\<close> (its UTF-8 bytes), a \<^verbatim>\<open>dict\<close> is an association list with distinct
  keys in insertion order (\<^const>\<open>AList.update\<close> overwrites in place or appends, as a
  Python dict does), and an exception is a value of type \<open>error\<close>. Operations that
  mutate a ring take the ring and return the outcome together with the ring as the
  call leaves it.
\<close>

subsection \<open>Exceptions\<close>

datatype error =
  ValueError string
  | RuntimeError string
  | KeyError
  | StatisticsError string

subsection \<open>Formatting integers\<close>

definition digit_char :: "nat \<Rightarrow> char" where
  "digit_char d = ''0123456789'' ! d"

function str_nat :: "nat \<Rightarrow> string" where
  "str_nat n = (if n < 10 then [digit_char n] else str_nat (n div 10) @ [digit_char (n mod 10)])"
  by pat_completeness auto
termination
  by (relation "measure id") auto

declare str_nat.simps [simp del]

definition str_int :: "int \<Rightarrow> string" where
  "str_int i = (if i < 0 then ''-'' @ str_nat (nat (- i)) else str_nat (nat i))"

subsection \<open>hash_function.py\<close>

text \<open>
  \<^verbatim>\<open>hashlib.sha1\<close> is a library function; it is a parameter \<open>sha1\<close> from the encoded
  string to the digest bytes. \<open>int_from_bytes_big\<close> is
  \<^verbatim>\<open>int.from_bytes(bs, byteorder="big", signed=False)\<close>.
\<close>

definition int_from_bytes_big :: "8 word list \<Rightarrow> int" where
  "int_from_bytes_big bs = foldl (\<lambda>acc b. acc * 256 + uint b) 0 bs"

definition hash32 :: "(string \<Rightarrow> 8 word list) \<Rightarrow> string \<Rightarrow> int" where
  "hash32 sha1 data = int_from_bytes_big (take 4 (sha1 data))"

subsection \<open>hash_ring.py: data\<close>

record Node =
  node_id :: string

record VNode =
  physical :: Node
  replica_index :: int

definition vnode_key :: "VNode \<Rightarrow> string" where
  "vnode_key v = node_id (physical v) @ ''#vn'' @ str_int (replica_index v)"

record HashRing =
  vnodes_per_node :: int
  hash_fn :: "string \<Rightarrow> int"
  positions :: "int list"
  vnode_at :: "(int \<times> VNode) list"
  positions_by_node :: "(string \<times> int list) list"

subsection \<open>Library operations on lists\<close>

text \<open>
  \<^verbatim>\<open>bisect.bisect_left(a, x)\<close> with its default bounds: the binary search of the
  standard library, whatever the list holds.
\<close>

function bisect_loop :: "int list \<Rightarrow> int \<Rightarrow> nat \<Rightarrow> nat \<Rightarrow> nat" where
  "bisect_loop a x lo hi =
     (if lo < hi then
        (let mid = (lo + hi) div 2 in
         if a ! mid < x then bisect_loop a x (mid + 1) hi else bisect_loop a x lo mid)
      else lo)"
  by pat_completeness auto
termination
  by (relation "measure (\<lambda>(a, x, lo, hi). hi - lo)") auto

declare bisect_loop.simps [simp del]

definition bisect_left :: "int list \<Rightarrow> int \<Rightarrow> nat" where
  "bisect_left a x = bisect_loop a x 0 (length a)"

text \<open>\<^verbatim>\<open>a.insert(idx, x)\<close> and \<^verbatim>\<open>a.pop(idx)\<close> for \<open>0 \<le> idx\<close>.\<close>

definition list_insert :: "'a list \<Rightarrow> nat \<Rightarrow> 'a \<Rightarrow> 'a list" where
  "list_insert a idx x = take idx a @ x # drop idx a"

definition list_pop :: "'a list \<Rightarrow> nat \<Rightarrow> 'a list" where
  "list_pop a idx = take idx a @ drop (Suc idx) a"

subsection \<open>hash_ring.py: HashRing\<close>

definition HashRing_init ::
  "(string \<Rightarrow> 8 word list) \<Rightarrow> int \<Rightarrow> (string \<Rightarrow> int) option \<Rightarrow> error + HashRing" where
  "HashRing_init sha1 k hf =
     (if k \<le> 0 then Inl (ValueError ''vnodes_per_node must be > 0'')
      else Inr \<lparr>vnodes_per_node = k,
                hash_fn = (case hf of None \<Rightarrow> hash32 sha1 | Some f \<Rightarrow> f),
                positions = [],
                vnode_at = [],
                positions_by_node = []\<rparr>)"

text \<open>
  The collision loop of \<^verbatim>\<open>add_node\<close>:
  \<^verbatim>\<open>while pos in self._vnode_at: attempt += 1; pos = hash32(key + "@" + str(attempt))\<close>.
  Nothing bounds it, so it is a partial function: \<open>None\<close> is a loop that never ends.
\<close>

partial_function (option) probe ::
  "(string \<Rightarrow> int) \<Rightarrow> (int \<times> VNode) list \<Rightarrow> string \<Rightarrow> nat \<Rightarrow> int \<Rightarrow> int option" where
  [code]: "probe h vat key attempt pos =
     (if map_of vat pos \<noteq> None
      then probe h vat key (attempt + 1) (h (key @ ''@'' @ str_nat (attempt + 1)))
      else Some pos)"

text \<open>One pass of the body of \<^verbatim>\<open>for i in range(self.vnodes_per_node)\<close>.\<close>

definition place_vnode ::
  "Node \<Rightarrow> int \<Rightarrow> HashRing \<times> int list \<Rightarrow> (HashRing \<times> int list) option" where
  "place_vnode node i s =
     (case s of (r, pos_list) \<Rightarrow>
        let vnode = \<lparr>physical = node, replica_index = i\<rparr> in
        (case probe (hash_fn r) (vnode_at r) (vnode_key vnode) 0 (hash_fn r (vnode_key vnode)) of
           None \<Rightarrow> None
         | Some pos \<Rightarrow>
             let idx = bisect_left (positions r) pos in
             Some (r\<lparr>positions := list_insert (positions r) idx pos,
                      vnode_at := AList.update pos vnode (vnode_at r)\<rparr>,
                   pos_list @ [pos])))"

fun add_loop ::
  "Node \<Rightarrow> int list \<Rightarrow> HashRing \<times> int list \<Rightarrow> (HashRing \<times> int list) option" where
  "add_loop node [] s = Some s"
| "add_loop node (i # is) s =
     (case place_vnode node i s of None \<Rightarrow> None | Some s' \<Rightarrow> add_loop node is s')"

definition add_node :: "HashRing \<Rightarrow> Node \<Rightarrow> ((error + unit) \<times> HashRing) option" where
  "add_node r node =
     (if map_of (positions_by_node r) (node_id node) \<noteq> None
      then Some (Inl (ValueError (''Node '' @ node_id node @ '' already exists in ring'')), r)
      else
        (case add_loop node [0 .. vnodes_per_node r - 1] (r, []) of
           None \<Rightarrow> None
         | Some (r', pos_list) \<Rightarrow>
             Some (Inr (),
                   r'\<lparr>positions_by_node :=
                        AList.update (node_id node) pos_list (positions_by_node r')\<rparr>)))"

text \<open>
  The loop of \<^verbatim>\<open>remove_node\<close>. The \<^verbatim>\<open>RuntimeError\<close> is raised after the position
  has left \<^verbatim>\<open>_vnode_at\<close>, so the ring returned with it is the partly updated one.
\<close>

fun remove_loop :: "int list \<Rightarrow> HashRing \<Rightarrow> (error + unit) \<times> HashRing" where
  "remove_loop [] r = (Inr (), r)"
| "remove_loop (pos # ps) r =
     (let r1 = r\<lparr>vnode_at := AList.delete pos (vnode_at r)\<rparr>;
          idx = bisect_left (positions r1) pos
      in if idx \<ge> length (positions r1) \<or> positions r1 ! idx \<noteq> pos
         then (Inl (RuntimeError ''Ring corruption: position missing from sorted index''), r1)
         else remove_loop ps (r1\<lparr>positions := list_pop (positions r1) idx\<rparr>))"

definition remove_node :: "HashRing \<Rightarrow> string \<Rightarrow> (error + unit) \<times> HashRing" where
  "remove_node r nid =
     (case map_of (positions_by_node r) nid of
        None \<Rightarrow> (Inl (ValueError (''Node '' @ nid @ '' not found in ring'')), r)
      | Some ps \<Rightarrow>
          (case remove_loop ps r of
             (Inl e, r') \<Rightarrow> (Inl e, r')
           | (Inr u, r') \<Rightarrow>
               (Inr (), r'\<lparr>positions_by_node := AList.delete nid (positions_by_node r')\<rparr>)))"

definition get_node_for_key :: "HashRing \<Rightarrow> string \<Rightarrow> error + Node" where
  "get_node_for_key r key =
     (if positions r = [] then Inl (ValueError ''Ring is empty'')
      else
        let h = hash_fn r key;
            idx = bisect_left (positions r) h;
            idx = (if idx = length (positions r) then 0 else idx)
        in (case map_of (vnode_at r) (positions r ! idx) of
              None \<Rightarrow> Inl KeyError
            | Some vnode \<Rightarrow> Inr (physical vnode)))"

definition list_nodes :: "HashRing \<Rightarrow> string list" where
  "list_nodes r = sort (map fst (positions_by_node r))"

definition total_vnodes :: "HashRing \<Rightarrow> int" where
  "total_vnodes r = int (length (positions r))"

subsection \<open>Reachable rings\<close>

text \<open>
  The rings a caller can hold: the one the constructor returns, and the ring left by any
  call of \<^verbatim>\<open>add_node\<close> that returns or raises, or of \<^verbatim>\<open>remove_node\<close>.
\<close>

inductive reachable :: "HashRing \<Rightarrow> bool" where
  reach_init: "HashRing_init sha1 k hf = Inr r \<Longrightarrow> reachable r"
| reach_add: "reachable r \<Longrightarrow> add_node r node = Some (res, r') \<Longrightarrow> reachable r'"
| reach_remove: "reachable r \<Longrightarrow> remove_node r nid = (res, r') \<Longrightarrow> reachable r'"

subsection \<open>A small ring for concrete instances\<close>

text \<open>
  The constructor takes any object with a \<^verbatim>\<open>hash32\<close> method. \<open>example_hash\<close> hashes a
  string to its length, so that the two replicas of a one-letter node collide and the
  second is placed by the retry key.
\<close>

definition example_sha1 :: "string \<Rightarrow> 8 word list" where
  "example_sha1 s = []"

definition example_hash :: "string \<Rightarrow> int" where
  "example_hash s = int (length s)"

definition example_empty :: HashRing where
  "example_empty = \<lparr>vnodes_per_node = 2, hash_fn = example_hash, positions = [], vnode_at = [], positions_by_node = []\<rparr>"

definition example_ring :: HashRing where
  "example_ring = \<lparr>vnodes_per_node = 2, hash_fn = example_hash, positions = [5, 7],
     vnode_at = [(5, \<lparr>physical = \<lparr>node_id = ''A''\<rparr>, replica_index = 0\<rparr>),
                 (7, \<lparr>physical = \<lparr>node_id = ''A''\<rparr>, replica_index = 1\<rparr>)],
     positions_by_node = [(''A'', [5, 7])]\<rparr>"

subsection \<open>The invariant of the three indices\<close>

text \<open>
  \<open>index_inv r m\<close> relates the sorted list and the position dictionary of \<open>r\<close> to a
  node-to-positions map \<open>m\<close>: the list is strictly ascending, its elements are the keys
  of the dictionary, every list of \<open>m\<close> holds the positions of its node's replicas in
  replica order, and every occupied position is in the list of the node that owns it.
  Inside the loop of \<^verbatim>\<open>add_node\<close> the map \<open>m\<close> is \<^verbatim>\<open>_positions_by_node\<close> together
  with the local \<^verbatim>\<open>pos_list\<close>; between calls it is \<^verbatim>\<open>_positions_by_node\<close> itself.
\<close>

definition index_inv :: "HashRing \<Rightarrow> (string \<Rightarrow> int list option) \<Rightarrow> bool" where
  "index_inv r m \<longleftrightarrow>
     sorted (positions r) \<and> distinct (positions r) \<and>
     set (positions r) = fst ` set (vnode_at r) \<and>
     distinct (map fst (vnode_at r)) \<and>
     (\<forall>nid ps. m nid = Some ps \<longrightarrow>
        distinct ps \<and>
        (\<forall>j<length ps. map_of (vnode_at r) (ps ! j) =
           Some \<lparr>physical = \<lparr>node_id = nid\<rparr>, replica_index = int j\<rparr>)) \<and>
     (\<forall>p v. map_of (vnode_at r) p = Some v \<longrightarrow>
        (\<exists>ps. m (node_id (physical v)) = Some ps \<and> p \<in> set ps))"

definition ring_inv :: "HashRing \<Rightarrow> bool" where
  "ring_inv r \<longleftrightarrow>
     index_inv r (map_of (positions_by_node r)) \<and>
     distinct (map fst (positions_by_node r)) \<and>
     0 < vnodes_per_node r \<and>
     (\<forall>nid ps. map_of (positions_by_node r) nid = Some ps \<longrightarrow>
        length ps = nat (vnodes_per_node r))"

subsection \<open>Successor search, as the specification words it\<close>

text \<open>
  The smallest occupied position that is at least \<open>h\<close> and, when there is none, the
  smallest occupied position.
\<close>

definition successor_spec :: "int set \<Rightarrow> int \<Rightarrow> int" where
  "successor_spec occupied h =
     (if \<exists>q\<in>occupied. h \<le> q then Min {q \<in> occupied. h \<le> q} else Min occupied)"


definition example_ring2 :: HashRing where
  "example_ring2 = \<lparr>vnodes_per_node = 2, hash_fn = example_hash, positions = [5, 6, 7, 8],
     vnode_at = [(5, \<lparr>physical = \<lparr>node_id = ''A''\<rparr>, replica_index = 0\<rparr>),
                 (7, \<lparr>physical = \<lparr>node_id = ''A''\<rparr>, replica_index = 1\<rparr>),
                 (6, \<lparr>physical = \<lparr>node_id = ''BB''\<rparr>, replica_index = 0\<rparr>),
                 (8, \<lparr>physical = \<lparr>node_id = ''BB''\<rparr>, replica_index = 1\<rparr>)],
     positions_by_node = [(''A'', [5, 7]), (''BB'', [6, 8])]\<rparr>"

definition example_ring3 :: HashRing where
  "example_ring3 = \<lparr>vnodes_per_node = 2, hash_fn = example_hash, positions = [6, 8],
     vnode_at = [(6, \<lparr>physical = \<lparr>node_id = ''BB''\<rparr>, replica_index = 0\<rparr>),
                 (8, \<lparr>physical = \<lparr>node_id = ''BB''\<rparr>, replica_index = 1\<rparr>)],
     positions_by_node = [(''BB'', [6, 8])]\<rparr>"


subsection \<open>Placement of a node's replicas, as the specification words it\<close>

text \<open>
  \<open>candidate h key a\<close> is the position tried at attempt \<open>a\<close>: the hash of the ring key
  at attempt 0, of the ring key suffixed with \<open>@a\<close> afterwards. \<open>first_free\<close> says that
  \<open>p\<close> is the first candidate that is not occupied. \<open>placement\<close> says that each entry of
  \<open>ps\<close> is the first free candidate of its replica, where the positions taken by the
  earlier replicas count as occupied.
\<close>

definition candidate :: "(string \<Rightarrow> int) \<Rightarrow> string \<Rightarrow> nat \<Rightarrow> int" where
  "candidate h key a = (if a = 0 then h key else h (key @ ''@'' @ str_nat a))"

definition first_free :: "(string \<Rightarrow> int) \<Rightarrow> int set \<Rightarrow> string \<Rightarrow> int \<Rightarrow> bool" where
  "first_free h occupied key p \<longleftrightarrow>
     (\<exists>a. p = candidate h key a \<and> p \<notin> occupied \<and> (\<forall>b<a. candidate h key b \<in> occupied))"

definition placement :: "(string \<Rightarrow> int) \<Rightarrow> int set \<Rightarrow> Node \<Rightarrow> int list \<Rightarrow> bool" where
  "placement h occupied node ps \<longleftrightarrow>
     (\<forall>i<length ps.
        first_free h (occupied \<union> set (take i ps))
          (vnode_key \<lparr>physical = node, replica_index = int i\<rparr>) (ps ! i))"

text \<open>
  The state of the loop of \<^verbatim>\<open>add_node\<close> after some replicas: \<open>r0\<close> is the ring at the
  start of the call, \<open>r\<close> the ring now, \<open>pl\<close> the local \<^verbatim>\<open>pos_list\<close>.
\<close>

definition add_progress :: "HashRing \<Rightarrow> Node \<Rightarrow> HashRing \<Rightarrow> int list \<Rightarrow> bool" where
  "add_progress r0 node r pl \<longleftrightarrow>
     fst ` set (vnode_at r) = fst ` set (vnode_at r0) \<union> set pl \<and>
     placement (hash_fn r0) (fst ` set (vnode_at r0)) node pl \<and>
     distinct pl \<and> set pl \<inter> fst ` set (vnode_at r0) = {} \<and>
     length (vnode_at r) = length (vnode_at r0) + length pl \<and>
     length (positions r) = length (positions r0) + length pl \<and>
     set (positions r) = set (positions r0) \<union> set pl \<and>
     (\<forall>i<length pl. map_of (vnode_at r) (pl ! i) =
        Some \<lparr>physical = node, replica_index = int i\<rparr>) \<and>
     hash_fn r = hash_fn r0"


text \<open>A hash function with a single value, and the ring constructed with it.\<close>

definition example_const_hash :: "string \<Rightarrow> int" where
  "example_const_hash s = 0"

definition example_const_ring :: HashRing where
  "example_const_ring = \<lparr>vnodes_per_node = 2, hash_fn = example_const_hash, positions = [],
     vnode_at = [], positions_by_node = []\<rparr>"


(*DEFS-END*)

section \<open>Binary search on an ascending list\<close>

lemma bisect_loop_bounds:
  "lo \<le> hi \<Longrightarrow> lo \<le> bisect_loop a x lo hi \<and> bisect_loop a x lo hi \<le> hi"
proof (induction a x lo hi rule: bisect_loop.induct)
  case (1 a x lo hi)
  show ?case
  proof (cases "lo < hi")
    case False
    then show ?thesis using "1.prems" by (simp add: bisect_loop.simps)
  next
    case True
    define mid where "mid = (lo + hi) div 2"
    have m: "lo \<le> mid" "mid < hi" using True by (simp_all add: mid_def)
    show ?thesis
    proof (cases "a ! mid < x")
      case True
      have "mid + 1 \<le> bisect_loop a x (mid + 1) hi \<and> bisect_loop a x (mid + 1) hi \<le> hi"
        using "1.IH"(1)[of mid] \<open>lo < hi\<close> True m by (simp add: mid_def)
      moreover have "bisect_loop a x lo hi = bisect_loop a x (mid + 1) hi"
        using \<open>lo < hi\<close> True by (subst bisect_loop.simps) (simp add: mid_def Let_def)
      ultimately show ?thesis using m by simp
    next
      case False
      have "lo \<le> bisect_loop a x lo mid \<and> bisect_loop a x lo mid \<le> mid"
        using "1.IH"(2)[of mid] \<open>lo < hi\<close> False m by (simp add: mid_def)
      moreover have "bisect_loop a x lo hi = bisect_loop a x lo mid"
        using \<open>lo < hi\<close> False by (subst bisect_loop.simps) (simp add: mid_def Let_def)
      ultimately show ?thesis using m by simp
    qed
  qed
qed

lemma bisect_loop_sorted:
  "sorted a \<Longrightarrow> lo \<le> hi \<Longrightarrow> hi \<le> length a \<Longrightarrow> (\<forall>i<lo. a ! i < x) \<Longrightarrow>
   (\<forall>i. hi \<le> i \<and> i < length a \<longrightarrow> x \<le> a ! i) \<Longrightarrow>
   (\<forall>i<bisect_loop a x lo hi. a ! i < x) \<and>
   (\<forall>i. bisect_loop a x lo hi \<le> i \<and> i < length a \<longrightarrow> x \<le> a ! i)"
proof (induction a x lo hi rule: bisect_loop.induct)
  case (1 a x lo hi)
  show ?case
  proof (cases "lo < hi")
    case False
    then have "bisect_loop a x lo hi = lo" by (simp add: bisect_loop.simps)
    moreover have "lo = hi" using False "1.prems"(2) by simp
    ultimately show ?thesis using "1.prems" by simp
  next
    case True
    define mid where "mid = (lo + hi) div 2"
    have m: "lo \<le> mid" "mid < hi" "mid < length a" using True "1.prems"(3) by (simp_all add: mid_def)
    show ?thesis
    proof (cases "a ! mid < x")
      case lt: True
      have eq: "bisect_loop a x lo hi = bisect_loop a x (mid + 1) hi"
        using True lt by (subst bisect_loop.simps) (simp add: mid_def Let_def)
      have below: "\<forall>i<mid + 1. a ! i < x"
      proof (intro allI impI)
        fix i assume "i < mid + 1"
        then have "a ! i \<le> a ! mid" using "1.prems"(1) m(3) by (simp add: sorted_nth_mono)
        then show "a ! i < x" using lt by simp
      qed
      show ?thesis
        unfolding eq
        using "1.IH"(1)[of mid] True lt m "1.prems" below by (simp add: mid_def)
    next
      case ge: False
      have eq: "bisect_loop a x lo hi = bisect_loop a x lo mid"
        using True ge by (subst bisect_loop.simps) (simp add: mid_def Let_def)
      have above: "\<forall>i. mid \<le> i \<and> i < length a \<longrightarrow> x \<le> a ! i"
      proof (intro allI impI)
        fix i assume "mid \<le> i \<and> i < length a"
        then have "a ! mid \<le> a ! i" using "1.prems"(1) by (simp add: sorted_nth_mono)
        then show "x \<le> a ! i" using ge by simp
      qed
      show ?thesis
        unfolding eq
        using "1.IH"(2)[of mid] True ge m "1.prems" above by (simp add: mid_def)
    qed
  qed
qed

lemma bisect_left_le: "bisect_left a x \<le> length a"
  using bisect_loop_bounds[of 0 "length a" a x] by (simp add: bisect_left_def)

lemma bisect_left_less: "sorted a \<Longrightarrow> i < bisect_left a x \<Longrightarrow> a ! i < x"
  using bisect_loop_sorted[of a 0 "length a" x] by (simp add: bisect_left_def)

lemma bisect_left_geq: "sorted a \<Longrightarrow> bisect_left a x \<le> i \<Longrightarrow> i < length a \<Longrightarrow> x \<le> a ! i"
  using bisect_loop_sorted[of a 0 "length a" x] by (simp add: bisect_left_def)

lemma bisect_left_take: "sorted a \<Longrightarrow> y \<in> set (take (bisect_left a x) a) \<Longrightarrow> y < x"
  by (auto simp: in_set_conv_nth bisect_left_less)

lemma bisect_left_drop: "sorted a \<Longrightarrow> y \<in> set (drop (bisect_left a x) a) \<Longrightarrow> x \<le> y"
  by (auto simp: in_set_conv_nth bisect_left_geq)

lemma list_insert_set: "idx \<le> length a \<Longrightarrow> set (list_insert a idx x) = insert x (set a)"
proof -
  assume "idx \<le> length a"
  have "set (take idx a) \<union> set (drop idx a) = set a"
    by (metis append_take_drop_id set_append)
  then show ?thesis by (auto simp: list_insert_def)
qed

lemma list_insert_length: "length (list_insert a idx x) = Suc (length a)"
  by (simp add: list_insert_def)

lemma insert_sorted:
  assumes "sorted a" "distinct a" "x \<notin> set a"
  shows "sorted (list_insert a (bisect_left a x) x) \<and> distinct (list_insert a (bisect_left a x) x)"
proof -
  let ?k = "bisect_left a x"
  have td: "sorted (take ?k a @ drop ?k a)" "distinct (take ?k a @ drop ?k a)"
    using assms by simp_all
  have lo: "\<forall>y\<in>set (take ?k a). y < x" using assms(1) bisect_left_take by blast
  have "\<forall>y\<in>set (drop ?k a). x \<le> y" using assms(1) bisect_left_drop by blast
  moreover have "\<forall>y\<in>set (drop ?k a). y \<noteq> x" using assms(3) by (auto dest: in_set_dropD)
  ultimately have hi: "\<forall>y\<in>set (drop ?k a). x < y" by fastforce
  have "sorted (take ?k a @ x # drop ?k a)"
    using td(1) lo hi unfolding sorted_append by (auto simp: less_imp_le)
  moreover have "distinct (take ?k a @ x # drop ?k a)"
  proof -
    have "set (take ?k a) \<inter> set (drop ?k a) = {}" using lo hi by fastforce
    moreover have "x \<notin> set (take ?k a)" "x \<notin> set (drop ?k a)" using lo hi by auto
    ultimately show ?thesis using assms(2) by simp
  qed
  ultimately show ?thesis by (simp add: list_insert_def)
qed

lemma bisect_left_found:
  assumes "sorted a" "x \<in> set a"
  shows "bisect_left a x < length a \<and> a ! bisect_left a x = x"
proof -
  let ?k = "bisect_left a x"
  obtain j where j: "j < length a" "a ! j = x" using assms(2) by (auto simp: in_set_conv_nth)
  have "\<not> j < ?k" using bisect_left_less[OF assms(1), of j x] j by auto
  then have kj: "?k \<le> j" by simp
  then have k: "?k < length a" using j by simp
  have "x \<le> a ! ?k" using bisect_left_geq[OF assms(1), of x ?k] k by simp
  moreover have "a ! ?k \<le> a ! j" using assms(1) kj j(1) by (simp add: sorted_nth_mono)
  ultimately show ?thesis using k j by simp
qed

lemma pop_sorted:
  assumes "sorted a" "distinct a" "x \<in> set a"
  shows "sorted (list_pop a (bisect_left a x)) \<and> distinct (list_pop a (bisect_left a x)) \<and>
         set (list_pop a (bisect_left a x)) = set a - {x} \<and>
         Suc (length (list_pop a (bisect_left a x))) = length a"
proof -
  let ?k = "bisect_left a x"
  have k: "?k < length a" "a ! ?k = x" using bisect_left_found[OF assms(1,3)] by simp_all
  have a: "a = take ?k a @ x # drop (Suc ?k) a" using k by (metis id_take_nth_drop)
  have s: "sorted (take ?k a @ x # drop (Suc ?k) a)" "distinct (take ?k a @ x # drop (Suc ?k) a)"
    using assms a by simp_all
  have "sorted (take ?k a @ drop (Suc ?k) a)" using s(1) unfolding sorted_append by auto
  moreover have "distinct (take ?k a @ drop (Suc ?k) a)" using s(2) by auto
  moreover have "set (take ?k a @ drop (Suc ?k) a) = set a - {x}"
  proof -
    have "set a = set (take ?k a) \<union> {x} \<union> set (drop (Suc ?k) a)" by (subst a) auto
    moreover have "x \<notin> set (take ?k a)" "x \<notin> set (drop (Suc ?k) a)" using s(2) by auto
    ultimately show ?thesis by auto
  qed
  moreover have "Suc (length (take ?k a @ drop (Suc ?k) a)) = length a" using k(1) by simp
  ultimately show ?thesis by (simp add: list_pop_def)
qed

lemma bisect_left_successor:
  assumes "sorted a" "bisect_left a h < length a"
  shows "a ! bisect_left a h \<in> set a \<and> h \<le> a ! bisect_left a h \<and>
         (\<forall>q\<in>set a. h \<le> q \<longrightarrow> a ! bisect_left a h \<le> q)"
proof -
  let ?k = "bisect_left a h"
  have "h \<le> a ! ?k" using bisect_left_geq[OF assms(1), of h ?k] assms(2) by simp
  moreover have "\<forall>q\<in>set a. h \<le> q \<longrightarrow> a ! ?k \<le> q"
  proof (intro ballI impI)
    fix q assume "q \<in> set a" "h \<le> q"
    then obtain j where j: "j < length a" "a ! j = q" by (auto simp: in_set_conv_nth)
    have "\<not> j < ?k" using bisect_left_less[OF assms(1), of j h] j \<open>h \<le> q\<close> by auto
    then show "a ! ?k \<le> q" using assms(1) j by (auto simp: sorted_nth_mono)
  qed
  ultimately show ?thesis using assms(2) by simp
qed

lemma bisect_left_past_end:
  assumes "sorted a" "bisect_left a h = length a"
  shows "\<forall>q\<in>set a. q < h"
  using assms bisect_left_less[OF assms(1), of _ h] by (auto simp: in_set_conv_nth)

lemma sorted_first_least: "sorted a \<Longrightarrow> a \<noteq> [] \<Longrightarrow> a ! 0 \<in> set a \<and> (\<forall>q\<in>set a. a ! 0 \<le> q)"
  by (cases a) auto

section \<open>Concrete runs\<close>

lemma example_init: "HashRing_init example_sha1 2 (Some example_hash) = Inr example_empty"
  by (simp add: HashRing_init_def example_empty_def)

lemma example_add: "add_node example_empty \<lparr>node_id = ''A''\<rparr> = Some (Inr (), example_ring)"
  by (simp add: add_node_def example_empty_def example_ring_def upto.simps place_vnode_def
      vnode_key_def str_int_def str_nat.simps digit_char_def example_hash_def probe.simps
      bisect_left_def bisect_loop.simps list_insert_def Let_def)

lemma example_remove: "remove_node example_ring ''A'' = (Inr (), example_empty)"
  by (simp add: remove_node_def example_empty_def example_ring_def bisect_left_def
      bisect_loop.simps list_pop_def Let_def)

lemma place_vnode_frame:
  "place_vnode node i (r, pl) = Some (r', pl') \<Longrightarrow>
   vnodes_per_node r' = vnodes_per_node r \<and> hash_fn r' = hash_fn r \<and>
   positions_by_node r' = positions_by_node r"
  by (auto simp: place_vnode_def Let_def split: option.splits)

lemma add_loop_frame:
  "add_loop node is (r, pl) = Some (r', pl') \<Longrightarrow>
   vnodes_per_node r' = vnodes_per_node r \<and> hash_fn r' = hash_fn r \<and>
   positions_by_node r' = positions_by_node r"
proof (induction "is" arbitrary: r pl)
  case Nil
  then show ?case by simp
next
  case (Cons i "is")
  from Cons.prems obtain r1 pl1 where
    s: "place_vnode node i (r, pl) = Some (r1, pl1)" "add_loop node is (r1, pl1) = Some (r', pl')"
    by (auto split: option.splits)
  show ?case using Cons.IH[OF s(2)] place_vnode_frame[OF s(1)] by simp
qed

lemma add_node_frame:
  "add_node r node = Some (res, r') \<Longrightarrow>
   vnodes_per_node r' = vnodes_per_node r \<and> hash_fn r' = hash_fn r"
  by (auto simp: add_node_def split: if_splits option.splits dest: add_loop_frame)

lemma remove_loop_frame:
  "remove_loop ps r = (res, r') \<Longrightarrow>
   vnodes_per_node r' = vnodes_per_node r \<and> hash_fn r' = hash_fn r \<and>
   positions_by_node r' = positions_by_node r"
proof (induction ps arbitrary: r)
  case Nil
  then show ?case by simp
next
  case (Cons p ps)
  show ?case
  proof (cases "bisect_left (positions r) p \<ge> length (positions r) \<or> positions r ! bisect_left (positions r) p \<noteq> p")
    case True
    then show ?thesis using Cons.prems by (auto simp: Let_def)
  next
    case False
    then have "remove_loop ps (r\<lparr>vnode_at := AList.delete p (vnode_at r),
        positions := list_pop (positions r) (bisect_left (positions r) p)\<rparr>) = (res, r')"
      using Cons.prems by (simp add: Let_def)
    from Cons.IH[OF this] show ?thesis by simp
  qed
qed

lemma remove_node_frame:
  "remove_node r nid = (res, r') \<Longrightarrow>
   vnodes_per_node r' = vnodes_per_node r \<and> hash_fn r' = hash_fn r"
  by (auto simp: remove_node_def split: option.splits prod.splits sum.splits dest: remove_loop_frame)

section \<open>The indices stay consistent\<close>

lemma probe_free:
  assumes "probe h vat key a p = Some q"
  shows "map_of vat q = None"
  by (rule probe.raw_induct[where P = "\<lambda>h vat key a p q. map_of vat q = None", OF _ assms])
    (auto split: if_splits)

lemma map_of_None_keys: "map_of al k = None \<longleftrightarrow> k \<notin> fst ` set al"
  by (simp add: map_of_eq_None_iff)

lemma place_vnode_inv:
  assumes inv: "index_inv r (m(nid \<mapsto> pl))"
    and step: "place_vnode \<lparr>node_id = nid\<rparr> (int (length pl)) (r, pl) = Some (r', pl')"
  shows "index_inv r' (m(nid \<mapsto> pl')) \<and> length pl' = Suc (length pl)"
proof -
  let ?v = "\<lparr>physical = \<lparr>node_id = nid\<rparr>, replica_index = int (length pl)\<rparr>"
  from step obtain pos where
    pr: "probe (hash_fn r) (vnode_at r) (vnode_key ?v) 0 (hash_fn r (vnode_key ?v)) = Some pos"
    and r': "r' = r\<lparr>positions := list_insert (positions r) (bisect_left (positions r) pos) pos,
                     vnode_at := AList.update pos ?v (vnode_at r)\<rparr>"
    and pl': "pl' = pl @ [pos]"
    by (auto simp: place_vnode_def Let_def split: option.splits)
  have free: "map_of (vnode_at r) pos = None" using probe_free[OF pr] .
  from inv have s: "sorted (positions r)" "distinct (positions r)"
    and keys: "set (positions r) = fst ` set (vnode_at r)"
    and dk: "distinct (map fst (vnode_at r))"
    and lists: "\<And>n ps. (m(nid \<mapsto> pl)) n = Some ps \<Longrightarrow> distinct ps \<and>
        (\<forall>j<length ps. map_of (vnode_at r) (ps ! j) =
           Some \<lparr>physical = \<lparr>node_id = n\<rparr>, replica_index = int j\<rparr>)"
    and owner: "\<And>p v. map_of (vnode_at r) p = Some v \<Longrightarrow>
        \<exists>ps. (m(nid \<mapsto> pl)) (node_id (physical v)) = Some ps \<and> p \<in> set ps"
    unfolding index_inv_def by blast+
  have notin: "pos \<notin> set (positions r)" using free keys by (simp add: map_of_None_keys)
  have occupied: "\<And>n ps. (m(nid \<mapsto> pl)) n = Some ps \<Longrightarrow> pos \<notin> set ps"
  proof
    fix n ps assume a: "(m(nid \<mapsto> pl)) n = Some ps" "pos \<in> set ps"
    then obtain j where "j < length ps" "ps ! j = pos" by (auto simp: in_set_conv_nth)
    then have "map_of (vnode_at r) pos \<noteq> None" using lists[OF a(1)] by auto
    then show False using free by simp
  qed
  have mo: "map_of (vnode_at r') = (map_of (vnode_at r))(pos \<mapsto> ?v)"
    by (simp add: r' update_conv')
  have c1: "sorted (positions r') \<and> distinct (positions r')"
    using insert_sorted[OF s notin] by (simp add: r')
  have c2: "set (positions r') = fst ` set (vnode_at r')"
    using keys by (simp add: r' list_insert_set bisect_left_le dom_update)
  have c3: "distinct (map fst (vnode_at r'))" using dk by (simp add: r' distinct_update)
  have c4: "distinct ps \<and> (\<forall>j<length ps. map_of (vnode_at r') (ps ! j) =
           Some \<lparr>physical = \<lparr>node_id = n\<rparr>, replica_index = int j\<rparr>)"
    if a: "(m(nid \<mapsto> pl')) n = Some ps" for n ps
  proof (cases "n = nid")
    case True
    then have ps: "ps = pl @ [pos]" using a pl' by simp
    have old: "distinct pl \<and> (\<forall>j<length pl. map_of (vnode_at r) (pl ! j) =
           Some \<lparr>physical = \<lparr>node_id = nid\<rparr>, replica_index = int j\<rparr>)"
      using lists[of nid pl] by simp
    have np: "pos \<notin> set pl" using occupied[of nid pl] by simp
    have "distinct ps" using old np by (simp add: ps)
    moreover have "map_of (vnode_at r') (ps ! j) =
           Some \<lparr>physical = \<lparr>node_id = n\<rparr>, replica_index = int j\<rparr>" if j: "j < length ps" for j
    proof (cases "j < length pl")
      case True
      then have "ps ! j = pl ! j" by (simp add: ps nth_append)
      moreover have "pl ! j \<noteq> pos" using np True by (metis nth_mem)
      ultimately show ?thesis using old True \<open>n = nid\<close> by (simp add: mo)
    next
      case False
      then have "j = length pl" using j by (simp add: ps)
      then show ?thesis using \<open>n = nid\<close> by (simp add: ps mo)
    qed
    ultimately show ?thesis by blast
  next
    case False
    then have a': "(m(nid \<mapsto> pl)) n = Some ps" using a by simp
    have np: "pos \<notin> set ps" using occupied[OF a'] .
    have "map_of (vnode_at r') (ps ! j) = map_of (vnode_at r) (ps ! j)" if "j < length ps" for j
      using np that by (metis mo fun_upd_other nth_mem)
    then show ?thesis using lists[OF a'] by simp
  qed
  have c5: "\<exists>ps. (m(nid \<mapsto> pl')) (node_id (physical v)) = Some ps \<and> p \<in> set ps"
    if a: "map_of (vnode_at r') p = Some v" for p v
  proof (cases "p = pos")
    case True
    then have "v = ?v" using a by (simp add: mo)
    then show ?thesis using True by (simp add: pl')
  next
    case False
    then have "map_of (vnode_at r) p = Some v" using a by (simp add: mo)
    from owner[OF this] obtain ps where
      ps: "(m(nid \<mapsto> pl)) (node_id (physical v)) = Some ps" "p \<in> set ps" by blast
    show ?thesis
    proof (cases "node_id (physical v) = nid")
      case True
      then show ?thesis using ps by (simp add: pl')
    next
      case False
      then show ?thesis using ps by simp
    qed
  qed
  show ?thesis
    unfolding index_inv_def using c1 c2 c3 c4 c5 by (simp add: pl')
qed


lemma index_inv_frame:
  "positions r' = positions r \<Longrightarrow> vnode_at r' = vnode_at r \<Longrightarrow> index_inv r' m = index_inv r m"
  by (simp add: index_inv_def)

lemma add_loop_inv:
  "index_inv r (m(nid \<mapsto> pl)) \<Longrightarrow>
   add_loop \<lparr>node_id = nid\<rparr> [int (length pl)..j] (r, pl) = Some (r', pl') \<Longrightarrow>
   index_inv r' (m(nid \<mapsto> pl')) \<and> int (length pl') = max (int (length pl)) (j + 1)"
proof (induction "nat (j + 1 - int (length pl))" arbitrary: r pl)
  case 0
  then have "[int (length pl)..j] = []" by simp
  then have "r' = r" "pl' = pl" using "0.prems"(2) by simp_all
  moreover have "j + 1 \<le> int (length pl)" using "0.hyps" by simp
  ultimately show ?case using "0.prems"(1) by simp
next
  case (Suc n)
  then have le: "int (length pl) \<le> j" by linarith
  then have up: "[int (length pl)..j] = int (length pl) # [int (length pl) + 1..j]"
    by (simp add: upto_rec1)
  from Suc.prems(2) obtain r1 pl1 where
    s1: "place_vnode \<lparr>node_id = nid\<rparr> (int (length pl)) (r, pl) = Some (r1, pl1)" and
    s2: "add_loop \<lparr>node_id = nid\<rparr> [int (length pl) + 1..j] (r1, pl1) = Some (r', pl')"
    unfolding up by (auto split: option.splits)
  have i1: "index_inv r1 (m(nid \<mapsto> pl1))" and l1: "length pl1 = Suc (length pl)"
    using place_vnode_inv[OF Suc.prems(1) s1] by simp_all
  have n: "n = nat (j + 1 - int (length pl1))" using Suc.hyps(2) l1 by linarith
  have s2': "add_loop \<lparr>node_id = nid\<rparr> [int (length pl1)..j] (r1, pl1) = Some (r', pl')"
    using s2 l1 by (simp add: add.commute)
  from Suc.hyps(1)[OF n i1 s2'] show ?case using l1 le by simp
qed

lemma index_inv_start:
  assumes "index_inv r m" "m nid = None"
  shows "index_inv r (m(nid \<mapsto> []))"
proof -
  have "\<exists>ps. (m(nid \<mapsto> [])) (node_id (physical v)) = Some ps \<and> p \<in> set ps"
    if "map_of (vnode_at r) p = Some v" for p v
  proof -
    from assms(1) that obtain ps where ps: "m (node_id (physical v)) = Some ps" "p \<in> set ps"
      unfolding index_inv_def by blast
    then have "node_id (physical v) \<noteq> nid" using assms(2) by auto
    then show ?thesis using ps by simp
  qed
  moreover have "distinct ps \<and> (\<forall>j<length ps. map_of (vnode_at r) (ps ! j) =
           Some \<lparr>physical = \<lparr>node_id = n\<rparr>, replica_index = int j\<rparr>)"
    if "(m(nid \<mapsto> [])) n = Some ps" for n ps
    using that assms(1) unfolding index_inv_def by (cases "n = nid") auto
  ultimately show ?thesis using assms(1) unfolding index_inv_def by blast
qed

lemma add_node_new:
  assumes inv: "ring_inv r" and new: "map_of (positions_by_node r) (node_id node) = None"
    and run: "add_node r node = Some (res, r')"
  shows "res = Inr () \<and> ring_inv r' \<and>
    (\<exists>pl. map_of (positions_by_node r') = (map_of (positions_by_node r))(node_id node \<mapsto> pl))"
proof -
  let ?nid = "node_id node"
  let ?m = "map_of (positions_by_node r)"
  have node: "\<lparr>node_id = ?nid\<rparr> = node" by simp
  from run new obtain r1 pl where
    loop: "add_loop node [0..vnodes_per_node r - 1] (r, []) = Some (r1, pl)" and
    res: "res = Inr ()" and
    r': "r' = r1\<lparr>positions_by_node := AList.update ?nid pl (positions_by_node r1)\<rparr>"
    by (auto simp: add_node_def split: option.splits)
  have fr: "vnodes_per_node r1 = vnodes_per_node r" "positions_by_node r1 = positions_by_node r"
    using add_loop_frame[OF loop] by simp_all
  from inv have i0: "index_inv r ?m" and dk: "distinct (map fst (positions_by_node r))"
    and k: "0 < vnodes_per_node r"
    and len: "\<And>n ps. ?m n = Some ps \<Longrightarrow> length ps = nat (vnodes_per_node r)"
    unfolding ring_inv_def by blast+
  have loop': "add_loop \<lparr>node_id = ?nid\<rparr> [int (length ([]::int list))..vnodes_per_node r - 1] (r, []) = Some (r1, pl)"
    using loop by (simp add: node)
  have i1: "index_inv r1 (?m(?nid \<mapsto> pl))" and l: "int (length pl) = max 0 (vnodes_per_node r)"
    using add_loop_inv[OF index_inv_start[OF i0 new] loop'] by simp_all
  have m': "map_of (positions_by_node r') = ?m(?nid \<mapsto> pl)"
    by (simp add: r' fr update_conv')
  have "index_inv r' (map_of (positions_by_node r'))"
    unfolding m' using i1 by (simp add: r' index_inv_def)
  moreover have "distinct (map fst (positions_by_node r'))"
    using dk by (simp add: r' fr distinct_update)
  moreover have "0 < vnodes_per_node r'" using k by (simp add: r' fr)
  moreover have "length ps = nat (vnodes_per_node r')"
    if "map_of (positions_by_node r') n = Some ps" for n ps
  proof (cases "n = ?nid")
    case True
    then have "ps = pl" using that unfolding m' by simp
    then show ?thesis using l k by (simp add: r' fr)
  next
    case False
    then have "?m n = Some ps" using that unfolding m' by simp
    from len[OF this] show ?thesis by (simp add: r' fr)
  qed
  ultimately have "ring_inv r'" unfolding ring_inv_def by blast
  then show ?thesis using res m' by blast
qed

lemma add_node_inv: "ring_inv r \<Longrightarrow> add_node r node = Some (res, r') \<Longrightarrow> ring_inv r'"
proof (cases "map_of (positions_by_node r) (node_id node) = None")
  case True
  assume "ring_inv r" "add_node r node = Some (res, r')"
  then show ?thesis using add_node_new[OF _ True] by blast
next
  case False
  assume "ring_inv r" "add_node r node = Some (res, r')"
  then show ?thesis using False by (simp add: add_node_def)
qed

lemma delete_key_set: "fst ` set (AList.delete k al) = fst ` set al - {k}"
proof -
  have "set (map fst (AList.delete k al)) = set (map fst al) - {k}"
    by (simp only: delete_keys set_removeAll)
  then show ?thesis by simp
qed

lemma remove_loop_ok:
  "sorted (positions r) \<Longrightarrow> distinct (positions r) \<Longrightarrow> distinct ps \<Longrightarrow>
   set ps \<subseteq> set (positions r) \<Longrightarrow>
   \<exists>r'. remove_loop ps r = (Inr (), r') \<and>
     sorted (positions r') \<and> distinct (positions r') \<and>
     set (positions r') = set (positions r) - set ps \<and>
     length (positions r') + length ps = length (positions r) \<and>
     map_of (vnode_at r') = (\<lambda>p. if p \<in> set ps then None else map_of (vnode_at r) p) \<and>
     fst ` set (vnode_at r') = fst ` set (vnode_at r) - set ps \<and>
     (distinct (map fst (vnode_at r)) \<longrightarrow> distinct (map fst (vnode_at r')))"
proof (induction ps arbitrary: r)
  case Nil
  then show ?case by simp
next
  case (Cons p ps)
  let ?k = "bisect_left (positions r) p"
  let ?r2 = "r\<lparr>vnode_at := AList.delete p (vnode_at r), positions := list_pop (positions r) ?k\<rparr>"
  have pin: "p \<in> set (positions r)" using Cons.prems(4) by simp
  have found: "?k < length (positions r)" "positions r ! ?k = p"
    using bisect_left_found[OF Cons.prems(1) pin] by simp_all
  have pop: "sorted (list_pop (positions r) ?k)" "distinct (list_pop (positions r) ?k)"
    "set (list_pop (positions r) ?k) = set (positions r) - {p}"
    "Suc (length (list_pop (positions r) ?k)) = length (positions r)"
    using pop_sorted[OF Cons.prems(1,2) pin] by simp_all
  have step: "remove_loop (p # ps) r = remove_loop ps ?r2"
    using found by (simp add: Let_def)
  have sub: "set ps \<subseteq> set (positions ?r2)" using Cons.prems(3,4) pop(3) by auto
  have "distinct ps" using Cons.prems(3) by simp
  from Cons.IH[of ?r2, OF _ _ this sub] pop obtain r' where
    r': "remove_loop ps ?r2 = (Inr (), r')"
    "sorted (positions r')" "distinct (positions r')"
    "set (positions r') = set (positions ?r2) - set ps"
    "length (positions r') + length ps = length (positions ?r2)"
    "map_of (vnode_at r') = (\<lambda>q. if q \<in> set ps then None else map_of (vnode_at ?r2) q)"
    "fst ` set (vnode_at r') = fst ` set (vnode_at ?r2) - set ps"
    "distinct (map fst (vnode_at ?r2)) \<longrightarrow> distinct (map fst (vnode_at r'))"
    by auto
  have "set (positions r') = set (positions r) - set (p # ps)" using r'(4) pop(3) by auto
  moreover have "length (positions r') + length (p # ps) = length (positions r)"
    using r'(5) pop(4) by simp
  moreover have "map_of (vnode_at r') =
      (\<lambda>q. if q \<in> set (p # ps) then None else map_of (vnode_at r) q)"
    unfolding r'(6) by (auto simp: delete_conv' fun_eq_iff)
  moreover have "fst ` set (vnode_at r') = fst ` set (vnode_at r) - set (p # ps)"
    unfolding r'(7) by (auto simp: delete_key_set)
  moreover have "distinct (map fst (vnode_at r)) \<longrightarrow> distinct (map fst (vnode_at r'))"
    using r'(8) by (simp add: distinct_delete)
  ultimately show ?case using step r'(1,2,3) by simp
qed

lemma remove_node_present:
  assumes inv: "ring_inv r" and present: "map_of (positions_by_node r) nid = Some ps"
  shows "\<exists>r'. remove_node r nid = (Inr (), r') \<and> ring_inv r' \<and>
     length (positions r') + length ps = length (positions r) \<and>
     length ps = nat (vnodes_per_node r) \<and>
     map_of (positions_by_node r') = (map_of (positions_by_node r))(nid := None)"
proof -
  let ?m = "map_of (positions_by_node r)"
  from inv have s: "sorted (positions r)" "distinct (positions r)"
    and keys: "set (positions r) = fst ` set (vnode_at r)"
    and dv: "distinct (map fst (vnode_at r))"
    and lists: "\<And>n qs. ?m n = Some qs \<Longrightarrow> distinct qs \<and>
        (\<forall>j<length qs. map_of (vnode_at r) (qs ! j) =
           Some \<lparr>physical = \<lparr>node_id = n\<rparr>, replica_index = int j\<rparr>)"
    and owner: "\<And>p v. map_of (vnode_at r) p = Some v \<Longrightarrow>
        \<exists>qs. ?m (node_id (physical v)) = Some qs \<and> p \<in> set qs"
    and dk: "distinct (map fst (positions_by_node r))"
    and k: "0 < vnodes_per_node r"
    and len: "\<And>n qs. ?m n = Some qs \<Longrightarrow> length qs = nat (vnodes_per_node r)"
    unfolding ring_inv_def index_inv_def by blast+
  have dps: "distinct ps" using lists[OF present] by simp
  have owned: "\<exists>j. map_of (vnode_at r) p =
      Some \<lparr>physical = \<lparr>node_id = n\<rparr>, replica_index = int j\<rparr>"
    if "?m n = Some qs" "p \<in> set qs" for n qs p
    using lists[OF that(1)] that(2) by (auto simp: in_set_conv_nth)
  have sub: "set ps \<subseteq> set (positions r)"
  proof
    fix p assume "p \<in> set ps"
    from owned[OF present this] have "map_of (vnode_at r) p \<noteq> None" by auto
    then show "p \<in> set (positions r)" unfolding keys by (simp add: map_of_eq_None_iff)
  qed
  from remove_loop_ok[OF s dps sub] dv obtain r1 where
    r1: "remove_loop ps r = (Inr (), r1)"
    "sorted (positions r1)" "distinct (positions r1)"
    "set (positions r1) = set (positions r) - set ps"
    "length (positions r1) + length ps = length (positions r)"
    "map_of (vnode_at r1) = (\<lambda>q. if q \<in> set ps then None else map_of (vnode_at r) q)"
    "fst ` set (vnode_at r1) = fst ` set (vnode_at r) - set ps"
    "distinct (map fst (vnode_at r1))"
    by auto
  have fr: "vnodes_per_node r1 = vnodes_per_node r" "positions_by_node r1 = positions_by_node r"
    using remove_loop_frame[OF r1(1)] by simp_all
  let ?r' = "r1\<lparr>positions_by_node := AList.delete nid (positions_by_node r1)\<rparr>"
  have run: "remove_node r nid = (Inr (), ?r')"
    using present r1(1) by (simp add: remove_node_def)
  have m': "map_of (positions_by_node ?r') = ?m(nid := None)"
    by (simp add: fr delete_conv')
  have c4: "distinct qs \<and> (\<forall>j<length qs. map_of (vnode_at r1) (qs ! j) =
           Some \<lparr>physical = \<lparr>node_id = n\<rparr>, replica_index = int j\<rparr>)"
    if a: "(?m(nid := None)) n = Some qs" for n qs
  proof -
    have ne: "n \<noteq> nid" and a': "?m n = Some qs" using a by (auto split: if_splits)
    have "qs ! j \<notin> set ps" if j: "j < length qs" for j
    proof
      assume "qs ! j \<in> set ps"
      from owned[OF present this] lists[OF a'] j ne show False by auto
    qed
    then show ?thesis using lists[OF a'] by (simp add: r1(6))
  qed
  have c5: "\<exists>qs. (?m(nid := None)) (node_id (physical v)) = Some qs \<and> p \<in> set qs"
    if a: "map_of (vnode_at r1) p = Some v" for p v
  proof -
    have np: "p \<notin> set ps" and old: "map_of (vnode_at r) p = Some v"
      using a unfolding r1(6) by (auto split: if_splits)
    from owner[OF old] obtain qs where qs: "?m (node_id (physical v)) = Some qs" "p \<in> set qs"
      by blast
    have "node_id (physical v) \<noteq> nid" using qs np present by auto
    then show ?thesis using qs by simp
  qed
  have "index_inv ?r' (map_of (positions_by_node ?r'))"
    unfolding m' index_inv_def using r1(2,3,4,7,8) keys c4 c5 by simp
  moreover have "distinct (map fst (positions_by_node ?r'))"
    using dk by (simp add: fr distinct_delete)
  moreover have "0 < vnodes_per_node ?r'" using k by (simp add: fr)
  moreover have "length qs = nat (vnodes_per_node ?r')"
    if "map_of (positions_by_node ?r') n = Some qs" for n qs
  proof -
    have "?m n = Some qs" using that unfolding m' by (auto split: if_splits)
    from len[OF this] show ?thesis by (simp add: fr)
  qed
  ultimately have ri: "ring_inv ?r'" unfolding ring_inv_def by blast
  show ?thesis
  proof (intro exI[of _ ?r'] conjI)
    show "remove_node r nid = (Inr (), ?r')" by (rule run)
    show "ring_inv ?r'" by (rule ri)
    show "length (positions ?r') + length ps = length (positions r)" using r1(5) by simp
    show "length ps = nat (vnodes_per_node r)" by (rule len[OF present])
    show "map_of (positions_by_node ?r') = ?m(nid := None)" by (rule m')
  qed
qed

lemma remove_node_inv: "ring_inv r \<Longrightarrow> remove_node r nid = (res, r') \<Longrightarrow> ring_inv r'"
proof (cases "map_of (positions_by_node r) nid")
  case None
  assume "ring_inv r" "remove_node r nid = (res, r')"
  then show ?thesis using None by (simp add: remove_node_def)
next
  case (Some ps)
  assume "ring_inv r" "remove_node r nid = (res, r')"
  then show ?thesis using remove_node_present[OF _ Some, of ] by auto
qed

lemma init_inv: "HashRing_init sha1 k hf = Inr r \<Longrightarrow> ring_inv r"
  by (auto simp: HashRing_init_def ring_inv_def index_inv_def split: if_splits)

lemma reachable_inv: "reachable r \<Longrightarrow> ring_inv r"
proof (induction rule: reachable.induct)
  case (reach_init sha1 k hf r)
  then show ?case by (rule init_inv)
next
  case (reach_add r node res r')
  then show ?case using add_node_inv by blast
next
  case (reach_remove r nid res r')
  then show ?case using remove_node_inv by blast
qed

section \<open>Lookup\<close>

lemma example_reachable: "reachable example_ring"
  by (rule reach_add[OF reach_init[OF example_init] example_add])

lemma vnode_once:
  assumes inv: "ring_inv r" and present: "map_of (positions_by_node r) nid = Some ps"
    and j: "j < length ps"
  shows "map_of (vnode_at r) p = Some \<lparr>physical = \<lparr>node_id = nid\<rparr>, replica_index = int j\<rparr>
     \<longleftrightarrow> p = ps ! j"
proof
  let ?v = "\<lparr>physical = \<lparr>node_id = nid\<rparr>, replica_index = int j\<rparr>"
  from inv have lists: "\<And>n qs. map_of (positions_by_node r) n = Some qs \<Longrightarrow>
        (\<forall>i<length qs. map_of (vnode_at r) (qs ! i) =
           Some \<lparr>physical = \<lparr>node_id = n\<rparr>, replica_index = int i\<rparr>)"
    and owner: "\<And>q v. map_of (vnode_at r) q = Some v \<Longrightarrow>
        \<exists>qs. map_of (positions_by_node r) (node_id (physical v)) = Some qs \<and> q \<in> set qs"
    unfolding ring_inv_def index_inv_def by blast+
  {
    assume a: "map_of (vnode_at r) p = Some ?v"
    from owner[OF a] present have "p \<in> set ps" by simp
    then obtain i where i: "i < length ps" "ps ! i = p" by (auto simp: in_set_conv_nth)
    then have "map_of (vnode_at r) p = Some \<lparr>physical = \<lparr>node_id = nid\<rparr>, replica_index = int i\<rparr>"
      using lists[OF present] by auto
    then have "i = j" using a by simp
    then show "p = ps ! j" using i by simp
  }
  {
    assume "p = ps ! j"
    then show "map_of (vnode_at r) p = Some ?v" using lists[OF present] j by simp
  }
qed

lemma positions_listed:
  assumes inv: "ring_inv r" and present: "map_of (positions_by_node r) nid = Some ps"
  shows "set ps \<subseteq> set (positions r)"
proof
  fix p assume "p \<in> set ps"
  then obtain j where j: "j < length ps" "ps ! j = p" by (auto simp: in_set_conv_nth)
  from vnode_once[OF inv present j(1), of p] j(2) have "map_of (vnode_at r) p \<noteq> None" by simp
  moreover from inv have "set (positions r) = fst ` set (vnode_at r)"
    unfolding ring_inv_def index_inv_def by blast
  ultimately show "p \<in> set (positions r)" by (simp add: map_of_eq_None_iff)
qed

lemma lookup_successor:
  assumes inv: "ring_inv r" and ne: "positions r \<noteq> []"
  shows "\<exists>v. map_of (vnode_at r) (successor_spec (fst ` set (vnode_at r)) (hash_fn r key)) = Some v \<and>
     get_node_for_key r key = Inr (physical v)"
proof -
  let ?a = "positions r" and ?h = "hash_fn r key"
  let ?k = "bisect_left ?a ?h"
  from inv have s: "sorted ?a" and keys: "set ?a = fst ` set (vnode_at r)"
    unfolding ring_inv_def index_inv_def by blast+
  have occ: "\<exists>v. map_of (vnode_at r) p = Some v" if "p \<in> set ?a" for p
    using that keys by (metis map_of_eq_None_iff not_None_eq)
  have fin: "finite (set ?a)" "set ?a \<noteq> {}" using ne by simp_all
  show ?thesis
  proof (cases "?k = length ?a")
    case True
    have below: "\<forall>q\<in>set ?a. q < ?h" using bisect_left_past_end[OF s True] .
    have first: "?a ! 0 \<in> set ?a" "\<forall>q\<in>set ?a. ?a ! 0 \<le> q"
      using sorted_first_least[OF s ne] by simp_all
    have "Min (set ?a) = ?a ! 0" using first fin by (intro Min_eqI) auto
    moreover have "\<not> (\<exists>q\<in>set ?a. ?h \<le> q)" using below by auto
    ultimately have succ: "successor_spec (set ?a) ?h = ?a ! 0" by (simp add: successor_spec_def)
    from occ[OF first(1)] obtain v where v: "map_of (vnode_at r) (?a ! 0) = Some v" by blast
    have "get_node_for_key r key = Inr (physical v)"
      using ne True v by (simp add: get_node_for_key_def Let_def)
    then show ?thesis using v succ keys by auto
  next
    case False
    then have lt: "?k < length ?a" using bisect_left_le[of ?a ?h] by simp
    have sc: "?a ! ?k \<in> set ?a" "?h \<le> ?a ! ?k" "\<forall>q\<in>set ?a. ?h \<le> q \<longrightarrow> ?a ! ?k \<le> q"
      using bisect_left_successor[OF s lt] by simp_all
    have "Min {q \<in> set ?a. ?h \<le> q} = ?a ! ?k" using sc by (intro Min_eqI) auto
    moreover have "\<exists>q\<in>set ?a. ?h \<le> q" using sc by blast
    ultimately have succ: "successor_spec (set ?a) ?h = ?a ! ?k" by (simp add: successor_spec_def)
    from occ[OF sc(1)] obtain v where v: "map_of (vnode_at r) (?a ! ?k) = Some v" by blast
    have "get_node_for_key r key = Inr (physical v)"
      using ne False v by (simp add: get_node_for_key_def Let_def)
    then show ?thesis using v succ keys by auto
  qed
qed

lemma successor_spec_exact: "finite occupied \<Longrightarrow> h \<in> occupied \<Longrightarrow> successor_spec occupied h = h"
proof -
  assume f: "finite occupied" and h: "h \<in> occupied"
  have "Min {q \<in> occupied. h \<le> q} = h" using f h by (intro Min_eqI) auto
  moreover have "\<exists>q\<in>occupied. h \<le> q" using h by auto
  ultimately show ?thesis by (simp add: successor_spec_def)
qed

lemma lookup_member:
  assumes inv: "ring_inv r" and got: "get_node_for_key r key = Inr n"
  shows "map_of (positions_by_node r) (node_id n) \<noteq> None"
proof -
  from got obtain p v where v: "map_of (vnode_at r) p = Some v" "n = physical v"
    by (auto simp: get_node_for_key_def Let_def split: if_splits option.splits)
  from inv v(1) have "\<exists>ps. map_of (positions_by_node r) (node_id (physical v)) = Some ps \<and> p \<in> set ps"
    unfolding ring_inv_def index_inv_def by blast
  then show ?thesis using v(2) by auto
qed

lemma lookup_empty_iff:
  "get_node_for_key r key = Inl (ValueError ''Ring is empty'') \<longleftrightarrow> positions r = []"
  by (auto simp: get_node_for_key_def Let_def split: option.splits)

section \<open>A ring with two nodes\<close>

lemma example_add2: "add_node example_ring \<lparr>node_id = ''BB''\<rparr> = Some (Inr (), example_ring2)"
  by (simp add: add_node_def example_ring2_def example_ring_def upto.simps place_vnode_def
      vnode_key_def str_int_def str_nat.simps digit_char_def example_hash_def probe.simps
      bisect_left_def bisect_loop.simps list_insert_def Let_def)

lemma example_remove2: "remove_node example_ring2 ''A'' = (Inr (), example_ring3)"
  by (simp add: remove_node_def example_ring2_def example_ring3_def bisect_left_def
      bisect_loop.simps list_pop_def Let_def)

lemma example_reachable2: "reachable example_ring2"
  by (rule reach_add[OF example_reachable example_add2])

lemma example_lookup_exact: "get_node_for_key example_ring2 ''abcdefg'' = Inr \<lparr>node_id = ''A''\<rparr>"
  by (simp add: get_node_for_key_def example_ring2_def bisect_left_def bisect_loop.simps
      example_hash_def Let_def)

lemma example_lookup_wrap: "get_node_for_key example_ring2 ''abcdefghi'' = Inr \<lparr>node_id = ''A''\<rparr>"
  by (simp add: get_node_for_key_def example_ring2_def bisect_left_def bisect_loop.simps
      example_hash_def Let_def)

lemma example_lookup3: "get_node_for_key example_ring3 ''abcde'' = Inr \<lparr>node_id = ''BB''\<rparr>"
  by (simp add: get_node_for_key_def example_ring3_def bisect_left_def bisect_loop.simps
      example_hash_def Let_def)

section \<open>The probing loop and the replicas of a new node\<close>

lemma candidate_Suc: "candidate h key (Suc a) = h (key @ ''@'' @ str_nat (Suc a))"
  by (simp add: candidate_def)

lemma probe_complete:
  "a \<le> n \<Longrightarrow> \<forall>b. a \<le> b \<and> b < n \<longrightarrow> candidate h key b \<in> fst ` set vat \<Longrightarrow>
   candidate h key n \<notin> fst ` set vat \<Longrightarrow>
   probe h vat key a (candidate h key a) = Some (candidate h key n)"
proof (induction "n - a" arbitrary: a)
  case 0
  then have "a = n" by simp
  then show ?case using 0 by (subst probe.simps) (simp add: map_of_eq_None_iff)
next
  case (Suc d)
  then have lt: "a < n" by simp
  then have occ: "candidate h key a \<in> fst ` set vat" using Suc.prems(2) by simp
  have ih: "probe h vat key (Suc a) (candidate h key (Suc a)) = Some (candidate h key n)"
    using Suc.hyps(1)[of "Suc a"] Suc.hyps(2) Suc.prems lt by simp
  have "map_of vat (candidate h key a) \<noteq> None" using occ by (simp add: map_of_eq_None_iff)
  then show ?case using ih by (subst probe.simps) (simp add: candidate_Suc)
qed

lemma probe_sound:
  assumes "probe h vat key a pos = Some p"
  shows "pos = candidate h key a \<longrightarrow>
    (\<exists>n\<ge>a. p = candidate h key n \<and> p \<notin> fst ` set vat \<and>
       (\<forall>b. a \<le> b \<and> b < n \<longrightarrow> candidate h key b \<in> fst ` set vat))"
proof (rule probe.raw_induct[where P = "\<lambda>h vat key a pos p. pos = candidate h key a \<longrightarrow>
    (\<exists>n\<ge>a. p = candidate h key n \<and> p \<notin> fst ` set vat \<and>
       (\<forall>b. a \<le> b \<and> b < n \<longrightarrow> candidate h key b \<in> fst ` set vat))", OF _ assms])
  fix pr :: "(string \<Rightarrow> int) \<Rightarrow> (int \<times> VNode) list \<Rightarrow> string \<Rightarrow> nat \<Rightarrow> int \<Rightarrow> int option"
  fix h vat key a pos p
  assume ih: "\<And>h vat key a pos p. pr h vat key a pos = Some p \<Longrightarrow>
      pos = candidate h key a \<longrightarrow>
      (\<exists>n\<ge>a. p = candidate h key n \<and> p \<notin> fst ` set vat \<and>
         (\<forall>b. a \<le> b \<and> b < n \<longrightarrow> candidate h key b \<in> fst ` set vat))"
    and eq: "(if map_of vat pos \<noteq> None
         then pr h vat key (a + 1) (h (key @ ''@'' @ str_nat (a + 1)))
         else Some pos) = Some p"
  show "pos = candidate h key a \<longrightarrow>
      (\<exists>n\<ge>a. p = candidate h key n \<and> p \<notin> fst ` set vat \<and>
         (\<forall>b. a \<le> b \<and> b < n \<longrightarrow> candidate h key b \<in> fst ` set vat))"
  proof
    assume pos: "pos = candidate h key a"
    show "\<exists>n\<ge>a. p = candidate h key n \<and> p \<notin> fst ` set vat \<and>
         (\<forall>b. a \<le> b \<and> b < n \<longrightarrow> candidate h key b \<in> fst ` set vat)"
    proof (cases "map_of vat pos = None")
      case True
      then have "p = pos" using eq by simp
      then show ?thesis using True pos by (intro exI[of _ a]) (auto simp: map_of_eq_None_iff)
    next
      case False
      then have "pr h vat key (Suc a) (candidate h key (Suc a)) = Some p"
        using eq by (simp add: candidate_Suc)
      from ih[OF this] obtain n where n: "Suc a \<le> n" "p = candidate h key n"
        "p \<notin> fst ` set vat" "\<forall>b. Suc a \<le> b \<and> b < n \<longrightarrow> candidate h key b \<in> fst ` set vat"
        by blast
      have here: "candidate h key a \<in> fst ` set vat"
        using False pos by (simp add: map_of_eq_None_iff)
      have "\<forall>b. a \<le> b \<and> b < n \<longrightarrow> candidate h key b \<in> fst ` set vat"
      proof (intro allI impI)
        fix b assume b: "a \<le> b \<and> b < n"
        show "candidate h key b \<in> fst ` set vat"
        proof (cases "b = a")
          case True
          then show ?thesis using here by simp
        next
          case False
          then show ?thesis using b n(4) by simp
        qed
      qed
      then show ?thesis using n by (intro exI[of _ n]) simp
    qed
  qed
qed

lemma probe_first_free:
  "probe h vat key 0 (h key) = Some p \<longleftrightarrow> first_free h (fst ` set vat) key p"
proof
  assume "probe h vat key 0 (h key) = Some p"
  from probe_sound[OF this] show "first_free h (fst ` set vat) key p"
    by (auto simp: first_free_def candidate_def)
next
  assume "first_free h (fst ` set vat) key p"
  then obtain n where n: "p = candidate h key n" "p \<notin> fst ` set vat"
    "\<forall>b<n. candidate h key b \<in> fst ` set vat" by (auto simp: first_free_def)
  have "probe h vat key 0 (candidate h key 0) = Some (candidate h key n)"
    using n by (intro probe_complete) auto
  then show "probe h vat key 0 (h key) = Some p" using n(1) by (simp add: candidate_def)
qed

lemma update_new_length: "k \<notin> fst ` set al \<Longrightarrow> length (AList.update k v al) = Suc (length al)"
  by (induction al) auto

lemma place_vnode_step:
  "place_vnode node i (r, pl) = Some (r1, pl1) \<longleftrightarrow>
   (\<exists>p. first_free (hash_fn r) (fst ` set (vnode_at r))
          (vnode_key \<lparr>physical = node, replica_index = i\<rparr>) p \<and>
        r1 = r\<lparr>positions := list_insert (positions r) (bisect_left (positions r) p) p,
               vnode_at := AList.update p \<lparr>physical = node, replica_index = i\<rparr> (vnode_at r)\<rparr> \<and>
        pl1 = pl @ [p])"
  by (auto simp: place_vnode_def Let_def probe_first_free[symmetric] split: option.splits)

lemma add_progress_start: "add_progress r node r []"
  by (simp add: add_progress_def placement_def)

lemma add_progress_step:
  assumes prog: "add_progress r0 node r pl"
    and free: "first_free (hash_fn r) (fst ` set (vnode_at r))
        (vnode_key \<lparr>physical = node, replica_index = int (length pl)\<rparr>) p"
  shows "add_progress r0 node
     (r\<lparr>positions := list_insert (positions r) (bisect_left (positions r) p) p,
        vnode_at := AList.update p \<lparr>physical = node, replica_index = int (length pl)\<rparr> (vnode_at r)\<rparr>)
     (pl @ [p])"
proof -
  let ?v = "\<lparr>physical = node, replica_index = int (length pl)\<rparr>"
  let ?occ0 = "fst ` set (vnode_at r0)"
  from prog have occ: "fst ` set (vnode_at r) = ?occ0 \<union> set pl"
    and pla: "placement (hash_fn r0) ?occ0 node pl"
    and dis: "distinct pl" "set pl \<inter> ?occ0 = {}"
    and lv: "length (vnode_at r) = length (vnode_at r0) + length pl"
    and lp: "length (positions r) = length (positions r0) + length pl"
    and sp: "set (positions r) = set (positions r0) \<union> set pl"
    and at: "\<forall>i<length pl. map_of (vnode_at r) (pl ! i) = Some \<lparr>physical = node, replica_index = int i\<rparr>"
    and h: "hash_fn r = hash_fn r0"
    unfolding add_progress_def by blast+
  have pfree: "p \<notin> fst ` set (vnode_at r)" using free by (auto simp: first_free_def)
  then have p0: "p \<notin> ?occ0" "p \<notin> set pl" using occ by auto
  have c1: "fst ` set (AList.update p ?v (vnode_at r)) = ?occ0 \<union> set (pl @ [p])"
    using occ by (auto simp: dom_update)
  have c2: "placement (hash_fn r0) ?occ0 node (pl @ [p])"
    unfolding placement_def
  proof (intro allI impI)
    fix i assume i: "i < length (pl @ [p])"
    show "first_free (hash_fn r0) (?occ0 \<union> set (take i (pl @ [p])))
        (vnode_key \<lparr>physical = node, replica_index = int i\<rparr>) ((pl @ [p]) ! i)"
    proof (cases "i < length pl")
      case True
      then show ?thesis using pla by (simp add: placement_def nth_append)
    next
      case False
      then have "i = length pl" using i by simp
      then show ?thesis using free occ h by simp
    qed
  qed
  have c3: "distinct (pl @ [p])" "set (pl @ [p]) \<inter> ?occ0 = {}" using dis p0 by auto
  have c4: "length (AList.update p ?v (vnode_at r)) = length (vnode_at r0) + length (pl @ [p])"
    using lv pfree by (simp add: update_new_length)
  have c5: "length (list_insert (positions r) (bisect_left (positions r) p) p) =
      length (positions r0) + length (pl @ [p])"
    using lp by (simp add: list_insert_length)
  have c6: "set (list_insert (positions r) (bisect_left (positions r) p) p) =
      set (positions r0) \<union> set (pl @ [p])"
    using sp by (simp add: list_insert_set bisect_left_le)
  have c7: "\<forall>i<length (pl @ [p]). map_of (AList.update p ?v (vnode_at r)) ((pl @ [p]) ! i) =
      Some \<lparr>physical = node, replica_index = int i\<rparr>"
  proof (intro allI impI)
    fix i assume i: "i < length (pl @ [p])"
    show "map_of (AList.update p ?v (vnode_at r)) ((pl @ [p]) ! i) =
      Some \<lparr>physical = node, replica_index = int i\<rparr>"
    proof (cases "i < length pl")
      case True
      then have "pl ! i \<noteq> p" using p0(2) by (metis nth_mem)
      then show ?thesis using True at by (simp add: update_conv' nth_append)
    next
      case False
      then have "i = length pl" using i by simp
      then show ?thesis by (simp add: update_conv')
    qed
  qed
  show ?thesis unfolding add_progress_def using c1 c2 c3 c4 c5 c6 c7 h by simp
qed

lemma add_loop_sound:
  "add_progress r0 node r pl \<Longrightarrow>
   add_loop node [int (length pl)..j] (r, pl) = Some (r', pl') \<Longrightarrow>
   add_progress r0 node r' pl' \<and> int (length pl') = max (int (length pl)) (j + 1)"
proof (induction "nat (j + 1 - int (length pl))" arbitrary: r pl)
  case 0
  then have "[int (length pl)..j] = []" by simp
  then have "r' = r" "pl' = pl" using "0.prems"(2) by simp_all
  moreover have "j + 1 \<le> int (length pl)" using "0.hyps" by simp
  ultimately show ?case using "0.prems"(1) by simp
next
  case (Suc n)
  then have le: "int (length pl) \<le> j" by linarith
  then have up: "[int (length pl)..j] = int (length pl) # [int (length pl) + 1..j]"
    by (simp add: upto_rec1)
  from Suc.prems(2) obtain r1 pl1 where
    s1: "place_vnode node (int (length pl)) (r, pl) = Some (r1, pl1)" and
    s2: "add_loop node [int (length pl) + 1..j] (r1, pl1) = Some (r', pl')"
    unfolding up by (auto split: option.splits)
  from s1 obtain p where p: "first_free (hash_fn r) (fst ` set (vnode_at r))
          (vnode_key \<lparr>physical = node, replica_index = int (length pl)\<rparr>) p"
    "r1 = r\<lparr>positions := list_insert (positions r) (bisect_left (positions r) p) p,
       vnode_at := AList.update p \<lparr>physical = node, replica_index = int (length pl)\<rparr> (vnode_at r)\<rparr>"
    "pl1 = pl @ [p]"
    unfolding place_vnode_step by blast
  have i1: "add_progress r0 node r1 pl1"
    using add_progress_step[OF Suc.prems(1) p(1)] p(2,3) by simp
  have l1: "length pl1 = Suc (length pl)" using p(3) by simp
  have n: "n = nat (j + 1 - int (length pl1))" using Suc.hyps(2) l1 by linarith
  have s2': "add_loop node [int (length pl1)..j] (r1, pl1) = Some (r', pl')"
    using s2 l1 by (simp add: add.commute)
  from Suc.hyps(1)[OF n i1 s2'] show ?case using l1 le by simp
qed

lemma add_loop_complete:
  "add_progress r0 node r pl \<Longrightarrow>
   placement (hash_fn r0) (fst ` set (vnode_at r0)) node ps \<Longrightarrow>
   take (length pl) ps = pl \<Longrightarrow> length pl \<le> length ps \<Longrightarrow>
   add_loop node [int (length pl)..int (length ps) - 1] (r, pl) \<noteq> None"
proof (induction "length ps - length pl" arbitrary: r pl)
  case 0
  have "[int (length pl)..int (length ps) - 1] = []" using "0.hyps" by simp
  then show ?case by simp
next
  case (Suc n)
  let ?i = "length pl"
  have lt: "?i < length ps" using Suc.hyps(2) by simp
  then have up: "[int ?i..int (length ps) - 1] = int ?i # [int ?i + 1..int (length ps) - 1]"
    by (simp add: upto_rec1)
  from Suc.prems(1) have occ: "fst ` set (vnode_at r) = fst ` set (vnode_at r0) \<union> set pl"
    and h: "hash_fn r = hash_fn r0"
    unfolding add_progress_def by blast+
  have "first_free (hash_fn r0) (fst ` set (vnode_at r0) \<union> set (take ?i ps))
      (vnode_key \<lparr>physical = node, replica_index = int ?i\<rparr>) (ps ! ?i)"
    using Suc.prems(2) lt unfolding placement_def by blast
  then have free: "first_free (hash_fn r) (fst ` set (vnode_at r))
      (vnode_key \<lparr>physical = node, replica_index = int ?i\<rparr>) (ps ! ?i)"
    using occ h Suc.prems(3) by simp
  let ?r1 = "r\<lparr>positions := list_insert (positions r) (bisect_left (positions r) (ps ! ?i)) (ps ! ?i),
       vnode_at := AList.update (ps ! ?i) \<lparr>physical = node, replica_index = int ?i\<rparr> (vnode_at r)\<rparr>"
  let ?pl1 = "pl @ [ps ! ?i]"
  have s1: "place_vnode node (int ?i) (r, pl) = Some (?r1, ?pl1)"
    unfolding place_vnode_step using free by blast
  have i1: "add_progress r0 node ?r1 ?pl1" using add_progress_step[OF Suc.prems(1) free] .
  have tk: "take (length ?pl1) ps = ?pl1"
    using Suc.prems(3) lt by (simp add: take_Suc_conv_app_nth)
  have n: "n = length ps - length ?pl1" using Suc.hyps(2) by simp
  have "add_loop node [int (length ?pl1)..int (length ps) - 1] (?r1, ?pl1) \<noteq> None"
    using Suc.hyps(1)[OF n i1 Suc.prems(2) tk] lt by simp
  then have "add_loop node [int ?i + 1..int (length ps) - 1] (?r1, ?pl1) \<noteq> None"
    by (simp add: add.commute)
  then show ?case unfolding up using s1 by simp
qed

lemma probe_unoccupied: "map_of vat pos = None \<Longrightarrow> probe h vat key a pos = Some pos"
  by (subst probe.simps) simp

lemma const_probe_diverges:
  assumes occ: "map_of vat 0 \<noteq> None"
  shows "probe example_const_hash vat key a 0 = None"
proof (rule ccontr)
  assume "probe example_const_hash vat key a 0 \<noteq> None"
  then obtain y where y: "probe example_const_hash vat key a 0 = Some y" by auto
  have "\<not> (example_const_hash = example_const_hash \<and> (0::int) = 0 \<and> map_of vat 0 \<noteq> None)"
  proof (rule probe.raw_induct[where P = "\<lambda>h vat key a pos y.
      \<not> (h = example_const_hash \<and> pos = 0 \<and> map_of vat 0 \<noteq> None)", OF _ y])
    fix pr :: "(string \<Rightarrow> int) \<Rightarrow> (int \<times> VNode) list \<Rightarrow> string \<Rightarrow> nat \<Rightarrow> int \<Rightarrow> int option"
    fix h vat key a pos y
    assume ih: "\<And>h vat key a pos y. pr h vat key a pos = Some y \<Longrightarrow>
        \<not> (h = example_const_hash \<and> pos = 0 \<and> map_of vat 0 \<noteq> None)"
      and eq: "(if map_of vat pos \<noteq> None
         then pr h vat key (a + 1) (h (key @ ''@'' @ str_nat (a + 1)))
         else Some pos) = Some y"
    show "\<not> (h = example_const_hash \<and> pos = 0 \<and> map_of vat 0 \<noteq> None)"
    proof
      assume a: "h = example_const_hash \<and> pos = 0 \<and> map_of vat 0 \<noteq> None"
      then have "pr example_const_hash vat key (a + 1) 0 = Some y"
        using eq by (simp add: example_const_hash_def)
      from ih[OF this] a show False by simp
    qed
  qed
  then show False using occ by simp
qed

lemma upto_empty_range: "[0..int (nat k) - 1] = [0..k - 1]"
  by (cases "0 \<le> k") simp_all


section \<open>Construction and user errors\<close>

text \<open>
  C8. Constructing a ring with \<open>k \<le> 0\<close> raises the \<^verbatim>\<open>ValueError\<close> "vnodes_per_node
  must be > 0" (the spec's InvalidConfiguration). With \<open>k > 0\<close> the constructor returns
  a ring whose three indices are empty and whose \<open>vnodes_per_node\<close> is \<open>k\<close>; and
  neither \<^verbatim>\<open>add_node\<close> nor \<^verbatim>\<open>remove_node\<close>, whatever its outcome, changes
  \<open>vnodes_per_node\<close>, so the value stays \<open>k\<close> for the ring's lifetime.
\<close>

theorem init_checks_vnodes_per_node:
  "(k \<le> 0 \<longrightarrow> HashRing_init sha1 k hf = Inl (ValueError ''vnodes_per_node must be > 0'')) \<and>
   (0 < k \<longrightarrow> (\<exists>r. HashRing_init sha1 k hf = Inr r \<and> vnodes_per_node r = k \<and>
       positions r = [] \<and> vnode_at r = [] \<and> positions_by_node r = [])) \<and>
   (add_node r node = Some (res, r') \<longrightarrow> vnodes_per_node r' = vnodes_per_node r) \<and>
   (remove_node r1 nid = (res2, r2) \<longrightarrow> vnodes_per_node r2 = vnodes_per_node r1)"
proof (intro conjI impI)
  assume "k \<le> 0"
  then show "HashRing_init sha1 k hf = Inl (ValueError ''vnodes_per_node must be > 0'')"
    by (simp add: HashRing_init_def)
next
  assume "0 < k"
  then show "\<exists>r. HashRing_init sha1 k hf = Inr r \<and> vnodes_per_node r = k \<and>
       positions r = [] \<and> vnode_at r = [] \<and> positions_by_node r = []"
    by (simp add: HashRing_init_def)
next
  assume "add_node r node = Some (res, r')"
  then show "vnodes_per_node r' = vnodes_per_node r" by (rule add_node_frame[THEN conjunct1])
next
  assume "remove_node r1 nid = (res2, r2)"
  then show "vnodes_per_node r2 = vnodes_per_node r1" by (rule remove_node_frame[THEN conjunct1])
qed

theorem init_checks_vnodes_per_node_witness:
  "HashRing_init example_sha1 0 None = Inl (ValueError ''vnodes_per_node must be > 0'') \<and>
   (\<exists>r. HashRing_init example_sha1 2 (Some example_hash) = Inr r \<and> vnodes_per_node r = 2 \<and>
       positions r = [] \<and> vnode_at r = [] \<and> positions_by_node r = []) \<and>
   add_node example_empty \<lparr>node_id = ''A''\<rparr> = Some (Inr (), example_ring) \<and>
   vnodes_per_node example_ring = vnodes_per_node example_empty \<and>
   remove_node example_ring ''A'' = (Inr (), example_empty) \<and>
   vnodes_per_node example_empty = vnodes_per_node example_ring"
proof -
  note c = init_checks_vnodes_per_node
  have "HashRing_init example_sha1 0 None = Inl (ValueError ''vnodes_per_node must be > 0'')"
    using c[of 0 example_sha1 None, THEN conjunct1] by simp
  moreover have "\<exists>r. HashRing_init example_sha1 2 (Some example_hash) = Inr r \<and>
      vnodes_per_node r = 2 \<and> positions r = [] \<and> vnode_at r = [] \<and> positions_by_node r = []"
    using c[of 2 example_sha1 "Some example_hash", THEN conjunct2, THEN conjunct1] by simp
  moreover have "vnodes_per_node example_ring = vnodes_per_node example_empty"
    using c[THEN conjunct2, THEN conjunct2, THEN conjunct1, rule_format, OF example_add] .
  moreover have "vnodes_per_node example_empty = vnodes_per_node example_ring"
    using c[THEN conjunct2, THEN conjunct2, THEN conjunct2, rule_format, OF example_remove] .
  ultimately show ?thesis using example_add example_remove by blast
qed

text \<open>
  C6. In every ring state, \<^verbatim>\<open>add_node\<close> with a node whose identifier is a key of
  \<^verbatim>\<open>_positions_by_node\<close> raises the \<^verbatim>\<open>ValueError\<close> "Node ... already exists in ring"
  (the spec's DuplicateNode) and returns the ring it was given; \<^verbatim>\<open>remove_node\<close> with
  an identifier that is not a key raises the \<^verbatim>\<open>ValueError\<close> "Node ... not found in ring"
  (the spec's NodeNotFound) and returns the ring it was given.
\<close>

theorem user_errors_leave_ring_unchanged:
  "(map_of (positions_by_node r) (node_id node) \<noteq> None \<longrightarrow>
      add_node r node =
        Some (Inl (ValueError (''Node '' @ node_id node @ '' already exists in ring'')), r)) \<and>
   (map_of (positions_by_node r) nid = None \<longrightarrow>
      remove_node r nid = (Inl (ValueError (''Node '' @ nid @ '' not found in ring'')), r))"
  by (simp add: add_node_def remove_node_def)

theorem user_errors_leave_ring_unchanged_witness:
  "map_of (positions_by_node example_ring) (node_id \<lparr>node_id = ''A''\<rparr>) \<noteq> None \<and>
   add_node example_ring \<lparr>node_id = ''A''\<rparr> =
     Some (Inl (ValueError ''Node A already exists in ring''), example_ring) \<and>
   map_of (positions_by_node example_ring) ''B'' = None \<and>
   remove_node example_ring ''B'' = (Inl (ValueError ''Node B not found in ring''), example_ring)"
  using user_errors_leave_ring_unchanged[of example_ring "\<lparr>node_id = ''A''\<rparr>" "''B''"]
  by (simp add: example_ring_def)

section \<open>The position index\<close>

text \<open>
  C4. In every ring reachable through the constructor, \<^verbatim>\<open>add_node\<close> and
  \<^verbatim>\<open>remove_node\<close>, the position list is ascending without duplicates, its elements are
  exactly the keys of the position dictionary (which are distinct), and each replica \<open>j\<close>
  of a node listed in \<^verbatim>\<open>_positions_by_node\<close> is stored at exactly one position, the
  \<open>j\<close>-th of the node's list, which has \<open>vnodes_per_node\<close> entries. These facts are part
  of \<open>ring_inv\<close>, and each of \<open>add_node\<close> and \<open>remove_node\<close> takes a ring satisfying
  \<open>ring_inv\<close> to one that satisfies it, whatever the outcome of the call.
\<close>

theorem position_index_invariant:
  "(reachable r \<longrightarrow>
      sorted (positions r) \<and> distinct (positions r) \<and>
      set (positions r) = fst ` set (vnode_at r) \<and>
      distinct (map fst (vnode_at r)) \<and>
      (map_of (positions_by_node r) nid = Some ps \<and> j < length ps \<longrightarrow>
         length ps = nat (vnodes_per_node r) \<and>
         (map_of (vnode_at r) p = Some \<lparr>physical = \<lparr>node_id = nid\<rparr>, replica_index = int j\<rparr>
            \<longleftrightarrow> p = ps ! j)) \<and>
      ring_inv r) \<and>
   (ring_inv ra \<and> add_node ra node = Some (res, ra') \<longrightarrow> ring_inv ra') \<and>
   (ring_inv rb \<and> remove_node rb x = (res2, rb') \<longrightarrow> ring_inv rb')"
proof (intro conjI impI)
  assume "reachable r"
  then have inv: "ring_inv r" by (rule reachable_inv)
  then show "sorted (positions r)" "distinct (positions r)"
    "set (positions r) = fst ` set (vnode_at r)" "distinct (map fst (vnode_at r))"
    unfolding ring_inv_def index_inv_def by blast+
  show "ring_inv r" by (rule inv)
  {
    assume a: "map_of (positions_by_node r) nid = Some ps \<and> j < length ps"
    show "length ps = nat (vnodes_per_node r)"
      using inv a unfolding ring_inv_def by blast
    show "map_of (vnode_at r) p = Some \<lparr>physical = \<lparr>node_id = nid\<rparr>, replica_index = int j\<rparr>
            \<longleftrightarrow> p = ps ! j"
      using vnode_once[OF inv] a by blast
  }
next
  assume "ring_inv ra \<and> add_node ra node = Some (res, ra')"
  then show "ring_inv ra'" using add_node_inv by blast
next
  assume "ring_inv rb \<and> remove_node rb x = (res2, rb')"
  then show "ring_inv rb'" using remove_node_inv by blast
qed

theorem position_index_invariant_witness:
  "reachable example_ring2 \<and>
   sorted (positions example_ring2) \<and> distinct (positions example_ring2) \<and>
   set (positions example_ring2) = fst ` set (vnode_at example_ring2) \<and>
   map_of (positions_by_node example_ring2) ''A'' = Some [5, 7] \<and>
   (map_of (vnode_at example_ring2) 7 =
      Some \<lparr>physical = \<lparr>node_id = ''A''\<rparr>, replica_index = 1\<rparr>) \<and>
   ring_inv example_ring \<and>
   add_node example_ring \<lparr>node_id = ''BB''\<rparr> = Some (Inr (), example_ring2) \<and>
   ring_inv example_ring2 \<and>
   remove_node example_ring2 ''A'' = (Inr (), example_ring3) \<and>
   ring_inv example_ring3"
proof -
  note c = position_index_invariant
  have present: "map_of (positions_by_node example_ring2) ''A'' = Some [5, 7]"
    by (simp add: example_ring2_def)
  note r = c[of example_ring2 "''A''" "[5, 7]" 1 7, THEN conjunct1, THEN mp, OF example_reachable2]
  have once: "map_of (vnode_at example_ring2) 7 =
      Some \<lparr>physical = \<lparr>node_id = ''A''\<rparr>, replica_index = 1\<rparr>"
    using r present by simp
  have i1: "ring_inv example_ring" by (rule reachable_inv[OF example_reachable])
  have i2: "ring_inv example_ring2"
    using c[THEN conjunct2, THEN conjunct1, rule_format, OF conjI, OF i1 example_add2] .
  have i3: "ring_inv example_ring3"
    using c[THEN conjunct2, THEN conjunct2, rule_format, OF conjI, OF i2 example_remove2] .
  show ?thesis
    using r present once i1 i2 i3 example_reachable2 example_add2 example_remove2 by simp
qed


text \<open>
  C10. In every reachable ring, each position in a node's list is in the sorted position
  list; \<^verbatim>\<open>remove_node\<close> of a present node returns normally, and no call of
  \<^verbatim>\<open>remove_node\<close> raises the "Ring corruption" \<^verbatim>\<open>RuntimeError\<close>, whatever its message.
\<close>

theorem remove_node_never_corrupt:
  "reachable r \<Longrightarrow>
   (map_of (positions_by_node r) nid = Some ps \<longrightarrow> set ps \<subseteq> set (positions r)) \<and>
   (map_of (positions_by_node r) nid \<noteq> None \<longrightarrow> fst (remove_node r nid) = Inr ()) \<and>
   fst (remove_node r nid) \<noteq> Inl (RuntimeError msg)"
proof -
  assume "reachable r"
  then have inv: "ring_inv r" by (rule reachable_inv)
  have a: "map_of (positions_by_node r) nid = Some ps \<longrightarrow> set ps \<subseteq> set (positions r)"
    using positions_listed[OF inv] by blast
  have b: "fst (remove_node r nid) = Inr ()" if "map_of (positions_by_node r) nid \<noteq> None"
  proof -
    from that obtain qs where "map_of (positions_by_node r) nid = Some qs" by auto
    from remove_node_present[OF inv this] show ?thesis by auto
  qed
  have c: "fst (remove_node r nid) \<noteq> Inl (RuntimeError msg)"
  proof (cases "map_of (positions_by_node r) nid")
    case None
    then show ?thesis by (simp add: remove_node_def)
  next
    case (Some qs)
    then show ?thesis using b by simp
  qed
  show ?thesis using a b c by blast
qed

theorem remove_node_never_corrupt_witness:
  "reachable example_ring2 \<and>
   map_of (positions_by_node example_ring2) ''A'' = Some [5, 7] \<and>
   set [5, 7] \<subseteq> set (positions example_ring2) \<and>
   fst (remove_node example_ring2 ''A'') = Inr ()"
proof -
  have present: "map_of (positions_by_node example_ring2) ''A'' = Some [5, 7]"
    by (simp add: example_ring2_def)
  show ?thesis
    using remove_node_never_corrupt[OF example_reachable2, of "''A''" "[5, 7]"] present
      example_reachable2 by simp
qed

section \<open>Lookup and removal\<close>

text \<open>
  C1. In every reachable ring with at least one virtual node, and for every key,
  \<^verbatim>\<open>get_node_for_key\<close> returns the physical node of the virtual node stored at
  \<open>successor_spec occupied h\<close>, where \<open>h\<close> is the hash of the key and \<open>occupied\<close> is
  the key set of the position dictionary: the smallest occupied position that is at least
  \<open>h\<close>, or the smallest occupied position when every occupied position is below
  \<open>h\<close>. When \<open>h\<close> itself is occupied, that position is \<open>h\<close>.
\<close>

theorem lookup_finds_successor:
  "reachable r \<Longrightarrow> total_vnodes r \<noteq> 0 \<Longrightarrow>
   (\<exists>v. map_of (vnode_at r) (successor_spec (fst ` set (vnode_at r)) (hash_fn r key)) = Some v \<and>
        get_node_for_key r key = Inr (physical v)) \<and>
   (hash_fn r key \<in> fst ` set (vnode_at r) \<longrightarrow>
      successor_spec (fst ` set (vnode_at r)) (hash_fn r key) = hash_fn r key)"
proof -
  assume "reachable r" and "total_vnodes r \<noteq> 0"
  then have inv: "ring_inv r" and ne: "positions r \<noteq> []"
    by (simp_all add: reachable_inv total_vnodes_def)
  have "finite (fst ` set (vnode_at r))" by simp
  then show ?thesis using lookup_successor[OF inv ne, of key] successor_spec_exact by blast
qed

theorem lookup_finds_successor_witness:
  "reachable example_ring2 \<and> total_vnodes example_ring2 \<noteq> 0 \<and>
   hash_fn example_ring2 ''abcdefg'' \<in> fst ` set (vnode_at example_ring2) \<and>
   successor_spec (fst ` set (vnode_at example_ring2)) (hash_fn example_ring2 ''abcdefg'') = 7 \<and>
   get_node_for_key example_ring2 ''abcdefg'' = Inr \<lparr>node_id = ''A''\<rparr>"
proof -
  have t: "total_vnodes example_ring2 \<noteq> 0" by (simp add: total_vnodes_def example_ring2_def)
  have h: "hash_fn example_ring2 ''abcdefg'' = 7" by (simp add: example_ring2_def example_hash_def)
  have occ: "hash_fn example_ring2 ''abcdefg'' \<in> fst ` set (vnode_at example_ring2)"
    unfolding h by (simp add: example_ring2_def)
  from lookup_finds_successor[OF example_reachable2 t, of "''abcdefg''"] occ
  have "successor_spec (fst ` set (vnode_at example_ring2)) (hash_fn example_ring2 ''abcdefg'') =
      hash_fn example_ring2 ''abcdefg''" by blast
  then show ?thesis using example_reachable2 t occ h example_lookup_exact by simp
qed


text \<open>
  C2. In any ring state, \<^verbatim>\<open>get_node_for_key\<close> raises the \<^verbatim>\<open>ValueError\<close> "Ring is empty"
  (the spec's EmptyRing) exactly when \<^verbatim>\<open>total_vnodes\<close> is zero. In a reachable ring with
  at least one virtual node, the lookup of every key returns a node, and that node's
  identifier is in \<^verbatim>\<open>list_nodes\<close>.
\<close>

theorem lookup_coverage:
  "(get_node_for_key r key = Inl (ValueError ''Ring is empty'') \<longleftrightarrow> total_vnodes r = 0) \<and>
   (reachable r \<and> total_vnodes r \<noteq> 0 \<longrightarrow>
      (\<exists>n. get_node_for_key r key = Inr n \<and> node_id n \<in> set (list_nodes r)))"
proof (intro conjI impI)
  show "get_node_for_key r key = Inl (ValueError ''Ring is empty'') \<longleftrightarrow> total_vnodes r = 0"
    by (simp add: lookup_empty_iff total_vnodes_def)
next
  assume a: "reachable r \<and> total_vnodes r \<noteq> 0"
  then have inv: "ring_inv r" and ne: "positions r \<noteq> []"
    by (simp_all add: reachable_inv total_vnodes_def)
  from lookup_successor[OF inv ne, of key] obtain n where n: "get_node_for_key r key = Inr n"
    by blast
  from lookup_member[OF inv n] have "node_id n \<in> fst ` set (positions_by_node r)"
    by (simp add: map_of_eq_None_iff)
  then have "node_id n \<in> set (list_nodes r)" by (simp add: list_nodes_def)
  then show "\<exists>n. get_node_for_key r key = Inr n \<and> node_id n \<in> set (list_nodes r)"
    using n by blast
qed

theorem lookup_coverage_witness:
  "reachable example_ring2 \<and> total_vnodes example_ring2 \<noteq> 0 \<and>
   get_node_for_key example_ring2 ''abcdefghi'' = Inr \<lparr>node_id = ''A''\<rparr> \<and>
   node_id \<lparr>node_id = ''A''\<rparr> \<in> set (list_nodes example_ring2) \<and>
   total_vnodes example_empty = 0 \<and>
   get_node_for_key example_empty ''abcdefghi'' = Inl (ValueError ''Ring is empty'')"
proof -
  have t: "total_vnodes example_ring2 \<noteq> 0" by (simp add: total_vnodes_def example_ring2_def)
  have e: "total_vnodes example_empty = 0" by (simp add: total_vnodes_def example_empty_def)
  from lookup_coverage[of example_ring2 "''abcdefghi''", THEN conjunct2] example_reachable2 t
  obtain n where n: "get_node_for_key example_ring2 ''abcdefghi'' = Inr n"
    "node_id n \<in> set (list_nodes example_ring2)" by blast
  then have "n = \<lparr>node_id = ''A''\<rparr>" using example_lookup_wrap by simp
  moreover have "get_node_for_key example_empty ''abcdefghi'' = Inl (ValueError ''Ring is empty'')"
    using lookup_coverage[of example_empty "''abcdefghi''", THEN conjunct1] e by simp
  ultimately show ?thesis using n example_reachable2 t e example_lookup_wrap by simp
qed


text \<open>
  C5. In a reachable ring where node \<open>x\<close> has the position list \<open>ps\<close>, the call
  \<^verbatim>\<open>remove_node(x)\<close> returns normally; afterwards \<open>x\<close> is not in \<^verbatim>\<open>list_nodes\<close>,
  \<^verbatim>\<open>total_vnodes\<close> is smaller by the length of \<open>ps\<close>, which is \<open>vnodes_per_node\<close>,
  and no key's lookup returns the node \<open>x\<close>.
\<close>

theorem remove_node_clean:
  "reachable r \<Longrightarrow> map_of (positions_by_node r) x = Some ps \<Longrightarrow>
   remove_node r x = (res, r') \<Longrightarrow>
   res = Inr () \<and>
   x \<notin> set (list_nodes r') \<and>
   total_vnodes r' = total_vnodes r - int (length ps) \<and>
   int (length ps) = vnodes_per_node r \<and>
   get_node_for_key r' key \<noteq> Inr \<lparr>node_id = x\<rparr>"
proof -
  assume "reachable r" and present: "map_of (positions_by_node r) x = Some ps"
    and run: "remove_node r x = (res, r')"
  then have inv: "ring_inv r" by (simp add: reachable_inv)
  from remove_node_present[OF inv present] run have
    res: "res = Inr ()" and inv': "ring_inv r'" and
    len: "length (positions r') + length ps = length (positions r)" and
    k: "length ps = nat (vnodes_per_node r)" and
    m': "map_of (positions_by_node r') = (map_of (positions_by_node r))(x := None)"
    by auto
  have gone: "map_of (positions_by_node r') x = None" by (simp add: m')
  then have "x \<notin> set (list_nodes r')" by (simp add: list_nodes_def map_of_eq_None_iff)
  moreover have "total_vnodes r' = total_vnodes r - int (length ps)"
    using len by (simp add: total_vnodes_def)
  moreover have "int (length ps) = vnodes_per_node r"
    using k inv unfolding ring_inv_def by simp
  moreover have "get_node_for_key r' key \<noteq> Inr \<lparr>node_id = x\<rparr>"
    using lookup_member[OF inv', of key "\<lparr>node_id = x\<rparr>"] gone by auto
  ultimately show ?thesis using res by blast
qed

theorem remove_node_clean_witness:
  "reachable example_ring2 \<and> map_of (positions_by_node example_ring2) ''A'' = Some [5, 7] \<and>
   remove_node example_ring2 ''A'' = (Inr (), example_ring3) \<and>
   ''A'' \<notin> set (list_nodes example_ring3) \<and>
   total_vnodes example_ring3 = total_vnodes example_ring2 - 2 \<and>
   vnodes_per_node example_ring2 = 2 \<and>
   get_node_for_key example_ring3 ''abcde'' \<noteq> Inr \<lparr>node_id = ''A''\<rparr>"
proof -
  have present: "map_of (positions_by_node example_ring2) ''A'' = Some [5, 7]"
    by (simp add: example_ring2_def)
  from remove_node_clean[OF example_reachable2 present example_remove2, of "''abcde''"]
  show ?thesis using example_reachable2 present example_remove2 by simp
qed

section \<open>Adding a node\<close>

text \<open>
  C3 (amended). For every ring state and every node whose identifier is not a key of
  \<^verbatim>\<open>_positions_by_node\<close>: \<^verbatim>\<open>add_node\<close> returns exactly when there is a placement
  of \<open>vnodes_per_node\<close> positions, that is when each replica \<open>i\<close> in turn has an
  unoccupied candidate in the sequence hash of "id#vn i", hash of "id#vn i@1", hash of
  "id#vn i@2" and so on, counting the positions of the earlier replicas as occupied.
  When it returns, it returns normally, the list recorded for the node is that placement
  (each entry the first unoccupied candidate of its replica), its entries are distinct
  and were unoccupied, the position dictionary and the position list have grown by exactly
  \<open>vnodes_per_node\<close> entries, namely those positions, and replica \<open>i\<close> is stored at the
  \<open>i\<close>-th of them. When no placement exists the loop of the call never ends.
\<close>

theorem add_node_places_replicas:
  assumes new: "map_of (positions_by_node r) (node_id node) = None"
  shows "(add_node r node \<noteq> None \<longleftrightarrow>
      (\<exists>ps. length ps = nat (vnodes_per_node r) \<and>
            placement (hash_fn r) (fst ` set (vnode_at r)) node ps)) \<and>
    (add_node r node = Some (res, r') \<longrightarrow>
      res = Inr () \<and>
      (\<exists>ps. map_of (positions_by_node r') (node_id node) = Some ps \<and>
         length ps = nat (vnodes_per_node r) \<and>
         placement (hash_fn r) (fst ` set (vnode_at r)) node ps \<and>
         distinct ps \<and> set ps \<inter> fst ` set (vnode_at r) = {} \<and>
         fst ` set (vnode_at r') = fst ` set (vnode_at r) \<union> set ps \<and>
         length (vnode_at r') = length (vnode_at r) + nat (vnodes_per_node r) \<and>
         length (positions r') = length (positions r) + nat (vnodes_per_node r) \<and>
         set (positions r') = set (positions r) \<union> set ps \<and>
         (\<forall>i<nat (vnodes_per_node r). map_of (vnode_at r') (ps ! i) =
            Some \<lparr>physical = node, replica_index = int i\<rparr>)))"
proof -
  let ?k = "vnodes_per_node r"
  let ?occ = "fst ` set (vnode_at r)"
  have unfold: "add_node r node =
     (case add_loop node [0..?k - 1] (r, []) of None \<Rightarrow> None
      | Some (r1, pl) \<Rightarrow>
          Some (Inr (), r1\<lparr>positions_by_node :=
                 AList.update (node_id node) pl (positions_by_node r1)\<rparr>))"
    using new by (simp add: add_node_def)
  have sound: "add_progress r node r1 pl \<and> length pl = nat ?k"
    if "add_loop node [0..?k - 1] (r, []) = Some (r1, pl)" for r1 pl
  proof -
    have "add_loop node [int (length ([]::int list))..?k - 1] (r, []) = Some (r1, pl)"
      using that by simp
    from add_loop_sound[OF add_progress_start this] show ?thesis by auto
  qed
  have a: "add_node r node \<noteq> None \<longleftrightarrow>
      (\<exists>ps. length ps = nat ?k \<and> placement (hash_fn r) ?occ node ps)"
  proof
    assume "add_node r node \<noteq> None"
    then obtain r1 pl where "add_loop node [0..?k - 1] (r, []) = Some (r1, pl)"
      unfolding unfold by (auto split: option.splits)
    from sound[OF this] show "\<exists>ps. length ps = nat ?k \<and> placement (hash_fn r) ?occ node ps"
      unfolding add_progress_def by blast
  next
    assume "\<exists>ps. length ps = nat ?k \<and> placement (hash_fn r) ?occ node ps"
    then obtain ps where ps: "length ps = nat ?k" "placement (hash_fn r) ?occ node ps" by blast
    have "add_loop node [int (length ([]::int list))..int (length ps) - 1] (r, []) \<noteq> None"
      by (rule add_loop_complete[OF add_progress_start ps(2)]) simp_all
    then have "add_loop node [0..?k - 1] (r, []) \<noteq> None"
      using ps(1) upto_empty_range[of ?k] by simp
    then show "add_node r node \<noteq> None" unfolding unfold by (auto split: option.splits)
  qed
  have b: "res = Inr () \<and>
      (\<exists>ps. map_of (positions_by_node r') (node_id node) = Some ps \<and>
         length ps = nat ?k \<and> placement (hash_fn r) ?occ node ps \<and>
         distinct ps \<and> set ps \<inter> ?occ = {} \<and>
         fst ` set (vnode_at r') = ?occ \<union> set ps \<and>
         length (vnode_at r') = length (vnode_at r) + nat ?k \<and>
         length (positions r') = length (positions r) + nat ?k \<and>
         set (positions r') = set (positions r) \<union> set ps \<and>
         (\<forall>i<nat ?k. map_of (vnode_at r') (ps ! i) =
            Some \<lparr>physical = node, replica_index = int i\<rparr>))"
    if run: "add_node r node = Some (res, r')"
  proof -
    from run obtain r1 pl where loop: "add_loop node [0..?k - 1] (r, []) = Some (r1, pl)"
      and res: "res = Inr ()"
      and r': "r' = r1\<lparr>positions_by_node := AList.update (node_id node) pl (positions_by_node r1)\<rparr>"
      unfolding unfold by (auto split: option.splits)
    from sound[OF loop] have prog: "add_progress r node r1 pl" and len: "length pl = nat ?k"
      by simp_all
    have m: "map_of (positions_by_node r') (node_id node) = Some pl"
      by (simp add: r' update_conv')
    have v: "vnode_at r' = vnode_at r1" "positions r' = positions r1" by (simp_all add: r')
    show ?thesis
    proof (intro conjI exI[of _ pl])
      show "res = Inr ()" by (rule res)
      show "map_of (positions_by_node r') (node_id node) = Some pl" by (rule m)
      show "length pl = nat ?k" by (rule len)
      show "placement (hash_fn r) ?occ node pl" "distinct pl" "set pl \<inter> ?occ = {}"
        using prog unfolding add_progress_def by blast+
      show "fst ` set (vnode_at r') = ?occ \<union> set pl"
        using prog unfolding add_progress_def v by blast
      show "length (vnode_at r') = length (vnode_at r) + nat ?k"
        using prog len unfolding add_progress_def v by simp
      show "length (positions r') = length (positions r) + nat ?k"
        using prog len unfolding add_progress_def v by simp
      show "set (positions r') = set (positions r) \<union> set pl"
        using prog unfolding add_progress_def v by blast
      show "\<forall>i<nat ?k. map_of (vnode_at r') (pl ! i) =
            Some \<lparr>physical = node, replica_index = int i\<rparr>"
        using prog len unfolding add_progress_def v by simp
    qed
  qed
  show ?thesis using a b by blast
qed

theorem add_node_places_replicas_witness:
  "map_of (positions_by_node example_empty) (node_id \<lparr>node_id = ''A''\<rparr>) = None \<and>
   add_node example_empty \<lparr>node_id = ''A''\<rparr> = Some (Inr (), example_ring) \<and>
   map_of (positions_by_node example_ring) ''A'' = Some [5, 7] \<and>
   example_hash ''A#vn0'' = 5 \<and> example_hash ''A#vn1'' = 5 \<and> example_hash ''A#vn1@1'' = 7 \<and>
   placement (hash_fn example_empty) (fst ` set (vnode_at example_empty)) \<lparr>node_id = ''A''\<rparr> [5, 7] \<and>
   length (positions example_ring) = length (positions example_empty) + 2 \<and>
   length (vnode_at example_ring) = length (vnode_at example_empty) + 2"
proof -
  have new: "map_of (positions_by_node example_empty) (node_id \<lparr>node_id = ''A''\<rparr>) = None"
    by (simp add: example_empty_def)
  have m: "map_of (positions_by_node example_ring) ''A'' = Some [5, 7]"
    by (simp add: example_ring_def)
  have k: "nat (vnodes_per_node example_empty) = 2" by (simp add: example_empty_def)
  from add_node_places_replicas[OF new, of "Inr ()" example_ring, THEN conjunct2, THEN mp,
      OF example_add]
  obtain ps where ps: "map_of (positions_by_node example_ring) (node_id \<lparr>node_id = ''A''\<rparr>) = Some ps"
    "placement (hash_fn example_empty) (fst ` set (vnode_at example_empty)) \<lparr>node_id = ''A''\<rparr> ps"
    "length (vnode_at example_ring) = length (vnode_at example_empty) + nat (vnodes_per_node example_empty)"
    "length (positions example_ring) = length (positions example_empty) + nat (vnodes_per_node example_empty)"
    by blast
  have "ps = [5, 7]" using ps(1) m by simp
  then show ?thesis using new example_add m ps(2,3,4) k by (simp add: example_hash_def)
qed

text \<open>
  With a hash function that has a single value and two replicas per node, the second
  replica finds every candidate occupied by the first: the call does not return.
\<close>

theorem add_node_diverges_counterexample:
  "HashRing_init example_sha1 2 (Some example_const_hash) = Inr example_const_ring \<and>
   map_of (positions_by_node example_const_ring) (node_id \<lparr>node_id = ''A''\<rparr>) = None \<and>
   add_node example_const_ring \<lparr>node_id = ''A''\<rparr> = None"
  by (simp add: HashRing_init_def example_const_ring_def add_node_def upto.simps place_vnode_def
      Let_def probe_unoccupied const_probe_diverges example_const_hash_def bisect_left_def
      bisect_loop.simps list_insert_def)

(*THEOREMS*)

end
